theory Spec2Isabelle
  imports Main "HOL-Library.Sublist"
begin

section \<open>Text, characters and the regular expressions of the scripts\<close>

text \<open>
  Python strings are sequences of code points. The model takes a \<open>char\<close> to be a code
  point in the range U+0000 .. U+00FF (Latin-1), so that the non-breaking space U+00A0
  that the scripts replace is a character of the model. The character classes below
  are those of Python 3 on that range: \<open>str.isspace\<close> and the regex class \<open>\s\<close> agree
  there, \<open>\d\<close> is the ASCII digits, \<open>\w\<close> is the alphanumeric characters and the
  underscore, and \<open>str.lower\<close> maps one character to one character.
\<close>

definition isspace :: "char \<Rightarrow> bool" where
  "isspace c = (let n = (of_char c :: int) in
     (9 \<le> n \<and> n \<le> 13) \<or> (28 \<le> n \<and> n \<le> 32) \<or> n = 133 \<or> n = 160)"

definition isdigit :: "char \<Rightarrow> bool" where
  "isdigit c = (let n = (of_char c :: int) in 48 \<le> n \<and> n \<le> 57)"

text \<open>The class \<open>[A-Za-z]\<close>.\<close>

definition is_az :: "char \<Rightarrow> bool" where
  "is_az c = (let n = (of_char c :: int) in (65 \<le> n \<and> n \<le> 90) \<or> (97 \<le> n \<and> n \<le> 122))"

text \<open>The class \<open>\w\<close>, which decides the word boundary \<open>\b\<close>.\<close>

definition is_word :: "char \<Rightarrow> bool" where
  "is_word c = (let n = (of_char c :: int) in
     (48 \<le> n \<and> n \<le> 57) \<or> (65 \<le> n \<and> n \<le> 90) \<or> n = 95 \<or> (97 \<le> n \<and> n \<le> 122) \<or>
     n = 170 \<or> n = 178 \<or> n = 179 \<or> n = 181 \<or> n = 185 \<or> n = 186 \<or>
     (188 \<le> n \<and> n \<le> 190) \<or> (192 \<le> n \<and> n \<le> 214) \<or> (216 \<le> n \<and> n \<le> 246) \<or>
     (248 \<le> n \<and> n \<le> 255))"

text \<open>\<open>str.lower\<close> on one character.\<close>

definition lower_char :: "char \<Rightarrow> char" where
  "lower_char c = (let n = (of_char c :: int) in
     if (65 \<le> n \<and> n \<le> 90) \<or> (192 \<le> n \<and> n \<le> 214) \<or> (216 \<le> n \<and> n \<le> 222)
     then char_of (n + 32) else c)"

definition lower :: "string \<Rightarrow> string" where
  "lower s = map lower_char s"

text \<open>\<open>str.strip()\<close>, \<open>str.rstrip(chars)\<close>, \<open>str.replace\<close> of one character by another.\<close>

definition strip :: "string \<Rightarrow> string" where
  "strip s = rev (dropWhile isspace (rev (dropWhile isspace s)))"

definition rstrip_chars :: "string \<Rightarrow> string \<Rightarrow> string" where
  "rstrip_chars chars s = rev (dropWhile (\<lambda>c. c \<in> set chars) (rev s))"

definition replace_char :: "char \<Rightarrow> char \<Rightarrow> string \<Rightarrow> string" where
  "replace_char a b s = map (\<lambda>c. if c = a then b else c) s"

text \<open>\<open>needle in haystack\<close> on strings.\<close>

fun contains :: "string \<Rightarrow> string \<Rightarrow> bool" where
  "contains [] needle = (needle = [])"
| "contains (c # cs) needle = (prefix needle (c # cs) \<or> contains cs needle)"

subsection \<open>A backtracking matcher for the patterns in use\<close>

text \<open>
  Every pattern of the scripts is a sequence of word boundaries \<open>\b\<close> and of greedy
  repetitions of one character class (a literal character is a class repeated exactly
  once; a parenthesised repetition is a capture group). \<open>Rep cls lo hi cap\<close> is the class
  \<open>cls\<close> repeated at least \<open>lo\<close> and at most \<open>hi\<close> times (\<open>None\<close>: unbounded), captured
  when \<open>cap\<close> holds.
\<close>

datatype item = WB | Rep "char \<Rightarrow> bool" nat "nat option" bool

definition Lit :: "char \<Rightarrow> item" where
  "Lit c = Rep (\<lambda>x. x = c) 1 (Some 1) False"

text \<open>A literal letter under \<open>re.IGNORECASE\<close>.\<close>

definition LitI :: "char \<Rightarrow> item" where
  "LitI c = Rep (\<lambda>x. lower_char x = lower_char c) 1 (Some 1) False"

definition word_at :: "string \<Rightarrow> nat \<Rightarrow> bool" where
  "word_at s i = (i < length s \<and> is_word (s ! i))"

text \<open>\<open>\b\<close> at position \<open>i\<close>: exactly one of the characters before and after is a word
  character; the ends of the string count as non-word.\<close>

definition at_boundary :: "string \<Rightarrow> nat \<Rightarrow> bool" where
  "at_boundary s i = ((i > 0 \<and> word_at s (i - 1)) \<noteq> word_at s i)"

definition greedy_count :: "(char \<Rightarrow> bool) \<Rightarrow> nat option \<Rightarrow> string \<Rightarrow> nat" where
  "greedy_count cls hi xs =
     (let n = length (takeWhile cls xs) in case hi of None \<Rightarrow> n | Some h \<Rightarrow> min h n)"

text \<open>Backtracking: the first success among \<open>f n, f (n - 1), ..., f lo\<close>.\<close>

fun first_down :: "(nat \<Rightarrow> 'a option) \<Rightarrow> nat \<Rightarrow> nat \<Rightarrow> 'a option" where
  "first_down f lo 0 = (if lo = 0 then f 0 else None)"
| "first_down f lo (Suc n) =
     (if Suc n < lo then None
      else case f (Suc n) of Some r \<Rightarrow> Some r | None \<Rightarrow> first_down f lo n)"

text \<open>\<open>matchI items s i\<close> matches the pattern at position \<open>i\<close> of \<open>s\<close> and returns the end
  of the match and the captured groups, in order.\<close>

fun matchI :: "item list \<Rightarrow> string \<Rightarrow> nat \<Rightarrow> (nat \<times> string list) option" where
  "matchI [] s i = Some (i, [])"
| "matchI (WB # r) s i = (if at_boundary s i then matchI r s i else None)"
| "matchI (Rep cls lo hi cap # r) s i =
     first_down
       (\<lambda>k. case matchI r s (i + k) of
              None \<Rightarrow> None
            | Some (j, caps) \<Rightarrow> Some (j, if cap then take k (drop i s) # caps else caps))
       lo (greedy_count cls hi (drop i s))"

text \<open>The first success among \<open>f i, f (i + 1), ...\<close>, \<open>n\<close> candidates.\<close>

fun first_up :: "(nat \<Rightarrow> 'a option) \<Rightarrow> nat \<Rightarrow> nat \<Rightarrow> 'a option" where
  "first_up f i 0 = None"
| "first_up f i (Suc n) = (case f i of Some r \<Rightarrow> Some r | None \<Rightarrow> first_up f (Suc i) n)"

text \<open>\<open>pattern.search(s)\<close>: the leftmost position where the pattern matches, as
  (start, end, groups).\<close>

definition re_search :: "item list \<Rightarrow> string \<Rightarrow> (nat \<times> nat \<times> string list) option" where
  "re_search items s =
     first_up (\<lambda>i. case matchI items s i of None \<Rightarrow> None | Some (j, caps) \<Rightarrow> Some (i, j, caps))
       0 (Suc (length s))"

text \<open>\<open>m.group(0)\<close>.\<close>

definition group0 :: "string \<Rightarrow> nat \<Rightarrow> nat \<Rightarrow> string" where
  "group0 s i j = take (j - i) (drop i s)"

subsection \<open>The identifier pattern and its three parsers\<close>

text \<open>The class \<open>[^\s<>"']\<close>.\<close>

definition doi_tail_char :: "char \<Rightarrow> bool" where
  "doi_tail_char c = (\<not> isspace c \<and> c \<noteq> CHR ''<'' \<and> c \<noteq> CHR ''>'' \<and> c \<noteq> CHR 0x22 \<and> c \<noteq> CHR 0x27)"

text \<open>\<^verbatim>\<open>DOI_RE = re.compile(r"\b10\.\d{4,9}/[^\s<>\"']+\b", re.IGNORECASE)\<close>, the same
  in the three scripts.\<close>

definition DOI_RE :: "item list" where
  "DOI_RE = [WB, Lit CHR ''1'', Lit CHR ''0'', Lit CHR ''.'', Rep isdigit 4 (Some 9) False,
             Lit CHR ''/'', Rep doi_tail_char 1 None False, WB]"

text \<open>\<open>parse_doi\<close> of \<open>sort_mrm_pdfs_by_acceptance_and_build_workbook.py\<close>.\<close>

definition parse_doi :: "string \<Rightarrow> string" where
  "parse_doi text =
     (case re_search DOI_RE text of
        None \<Rightarrow> []
      | Some (i, j, caps) \<Rightarrow> lower (rstrip_chars '').,;]'' (group0 text i j)))"

text \<open>\<open>parse_doi\<close> of \<open>add_affiliation_country_from_pdfs.py\<close>.\<close>

definition parse_doi_affil :: "string \<Rightarrow> string" where
  "parse_doi_affil s =
     (if s = [] then []
      else case re_search DOI_RE s of
        None \<Rightarrow> []
      | Some (i, j, caps) \<Rightarrow> lower (group0 s i j))"

text \<open>\<open>parse_doi_from_link\<close> of \<open>scan_keywords_update_workbook.py\<close>.\<close>

definition parse_doi_from_link :: "string \<Rightarrow> string" where
  "parse_doi_from_link link =
     (if link = [] then []
      else case re_search DOI_RE link of
        None \<Rightarrow> []
      | Some (i, j, caps) \<Rightarrow> lower (group0 link i j))"

section \<open>sort_mrm_pdfs_by_acceptance_and_build_workbook.py\<close>

subsection \<open>Errors, integers and dates\<close>

text \<open>The exceptions that the modelled code can raise.\<close>

datatype py_error = ValueError | IndexError | KeyError | ReError

text \<open>\<open>int(s)\<close> on a string of decimal digits (the only strings the patterns capture
  for it).\<close>

definition int_of_digits :: "string \<Rightarrow> int" where
  "int_of_digits s = foldl (\<lambda>a c. 10 * a + (of_char c - 48)) 0 s"

text \<open>\<open>str(n)\<close> for a natural number, and the format \<open>{n:0wd}\<close>: the sign first, then
  zeros up to the width \<open>w\<close>.\<close>

function digits_of :: "nat \<Rightarrow> string" where
  "digits_of n = (if n < 10 then [char_of (48 + n)] else digits_of (n div 10) @ [char_of (48 + n mod 10)])"
  by pat_completeness auto
termination
  by (relation "measure (\<lambda>n. n)") auto

declare digits_of.simps [simp del]

definition fmt_0d :: "nat \<Rightarrow> int \<Rightarrow> string" where
  "fmt_0d w n =
     (if n < 0
      then CHR ''-'' # replicate (w - 1 - length (digits_of (nat (- n)))) CHR ''0'' @ digits_of (nat (- n))
      else replicate (w - length (digits_of (nat n))) CHR ''0'' @ digits_of (nat n))"

record date =
  year :: int
  month :: int
  day :: int

definition is_leap :: "int \<Rightarrow> bool" where
  "is_leap y = (y mod 4 = 0 \<and> (y mod 100 \<noteq> 0 \<or> y mod 400 = 0))"

definition days_in_month :: "int \<Rightarrow> int \<Rightarrow> int" where
  "days_in_month y m =
     (if m = 2 then (if is_leap y then 29 else 28)
      else if m = 4 \<or> m = 6 \<or> m = 9 \<or> m = 11 then 30 else 31)"

text \<open>\<open>datetime.date(y, m, d)\<close>: a \<open>ValueError\<close> unless the year is in 1..9999, the month in
  1..12 and the day in the month.\<close>

definition dt_date :: "int \<Rightarrow> int \<Rightarrow> int \<Rightarrow> py_error + date" where
  "dt_date y m d =
     (if 1 \<le> y \<and> y \<le> 9999 \<and> 1 \<le> m \<and> m \<le> 12 \<and> 1 \<le> d \<and> d \<le> days_in_month y m
      then Inr \<lparr>year = y, month = m, day = d\<rparr> else Inl ValueError)"

definition valid_date :: "date \<Rightarrow> bool" where
  "valid_date d = (dt_date (year d) (month d) (day d) = Inr d)"

subsection \<open>Constants\<close>

definition MONTH_NAMES :: "string list" where
  "MONTH_NAMES = [''January'', ''February'', ''March'', ''April'', ''May'', ''June'',
     ''July'', ''August'', ''September'', ''October'', ''November'', ''December'']"

definition COLUMNS :: "string list" where
  "COLUMNS = [''Filename'', ''Month'', ''Keywords Matched'', ''Data Availability Statement'',
     ''False Positive?'', ''Link'', ''Shared code?'', ''Shared data?'', ''Language(s)'',
     ''Additional notes'', ''First author gender'', ''Last author gender'']"

definition accepted_word :: "item list" where
  "accepted_word = WB # map LitI ''Accepted'' @ [WB, Rep isspace 0 None False,
     Rep (\<lambda>c. c = CHR '':'') 0 (Some 1) False, Rep isspace 0 None False]"

text \<open>\<^verbatim>\<open>\bAccepted\b\s*:?\s*(\d{1,2})\s+([A-Za-z]+)\s+(\d{4})\b\<close>\<close>

definition ACC_DMY :: "item list" where
  "ACC_DMY = accepted_word @ [Rep isdigit 1 (Some 2) True, Rep isspace 1 None False,
     Rep is_az 1 None True, Rep isspace 1 None False, Rep isdigit 4 (Some 4) True, WB]"

text \<open>\<^verbatim>\<open>\bAccepted\b\s*:?\s*([A-Za-z]+)\s+(\d{1,2})(?:,)?\s+(\d{4})\b\<close>\<close>

definition ACC_MDY :: "item list" where
  "ACC_MDY = accepted_word @ [Rep is_az 1 None True, Rep isspace 1 None False,
     Rep isdigit 1 (Some 2) True, Rep (\<lambda>c. c = CHR '','') 0 (Some 1) False,
     Rep isspace 1 None False, Rep isdigit 4 (Some 4) True, WB]"

text \<open>\<^verbatim>\<open>\bAccepted\b\s*:?\s*(\d{4})-(\d{1,2})-(\d{1,2})\b\<close>\<close>

definition ACC_YMD_DASH :: "item list" where
  "ACC_YMD_DASH = accepted_word @ [Rep isdigit 4 (Some 4) True, Lit CHR ''-'',
     Rep isdigit 1 (Some 2) True, Lit CHR ''-'', Rep isdigit 1 (Some 2) True, WB]"

text \<open>\<^verbatim>\<open>\bAccepted\b\s*:?\s*(\d{1,2})/(\d{1,2})/(\d{4})\b\<close>\<close>

definition ACC_DMY_SLASH :: "item list" where
  "ACC_DMY_SLASH = accepted_word @ [Rep isdigit 1 (Some 2) True, Lit CHR ''/'',
     Rep isdigit 1 (Some 2) True, Lit CHR ''/'', Rep isdigit 4 (Some 4) True, WB]"

definition MONTH_LOOKUP :: "(string \<times> int) list" where
  "MONTH_LOOKUP = [(''jan'', 1), (''january'', 1), (''feb'', 2), (''february'', 2),
     (''mar'', 3), (''march'', 3), (''apr'', 4), (''april'', 4), (''may'', 5),
     (''jun'', 6), (''june'', 6), (''jul'', 7), (''july'', 7), (''aug'', 8), (''august'', 8),
     (''sep'', 9), (''sept'', 9), (''september'', 9), (''oct'', 10), (''october'', 10),
     (''nov'', 11), (''november'', 11), (''dec'', 12), (''december'', 12)]"

subsection \<open>normalize_text_for_dates\<close>

text \<open>\<^verbatim>\<open>re.sub(r"\s+", " ", t)\<close>: each maximal run of whitespace becomes one space.\<close>

function sub_ws :: "string \<Rightarrow> string" where
  "sub_ws [] = []"
| "sub_ws (c # cs) =
     (if isspace c then CHR '' '' # sub_ws (dropWhile isspace cs) else c # sub_ws cs)"
  by pat_completeness auto
termination
  by (relation "measure length") (auto simp: le_imp_less_Suc length_dropWhile_le)

text \<open>\<^verbatim>\<open>re.sub(r"(\d)([A-Za-z])", r"\1 \2", t)\<close>: the matches are taken from the left and
  do not overlap; after a match the scan goes on behind its two characters.\<close>

fun sub_digit_letter :: "string \<Rightarrow> string" where
  "sub_digit_letter (a # b # r) =
     (if isdigit a \<and> is_az b then a # CHR '' '' # b # sub_digit_letter r
      else a # sub_digit_letter (b # r))"
| "sub_digit_letter r = r"

text \<open>\<^verbatim>\<open>re.sub(r"([A-Za-z])(\d)", r"\1 \2", t)\<close>\<close>

fun sub_letter_digit :: "string \<Rightarrow> string" where
  "sub_letter_digit (a # b # r) =
     (if is_az a \<and> isdigit b then a # CHR '' '' # b # sub_letter_digit r
      else a # sub_letter_digit (b # r))"
| "sub_letter_digit r = r"

definition normalize_text_for_dates :: "string \<Rightarrow> string" where
  "normalize_text_for_dates text =
     (if text = [] then []
      else let t = replace_char (CHR 0x09) CHR '' '' (replace_char (CHR 0xA0) CHR '' '' text);
               t = sub_ws t;
               t = sub_digit_letter t;
               t = sub_letter_digit t
           in strip t)"

subsection \<open>parse_accepted_date\<close>

text \<open>\<open>MONTH_LOOKUP.get(mon.lower(), MONTH_LOOKUP.get(mon.lower()[:3]))\<close>\<close>

definition month_lookup :: "string \<Rightarrow> int option" where
  "month_lookup mon =
     (case map_of MONTH_LOOKUP (lower mon) of
        Some v \<Rightarrow> Some v
      | None \<Rightarrow> map_of MONTH_LOOKUP (take 3 (lower mon)))"

text \<open>\<^verbatim>\<open>try: return dt.date(y, mon, d)  except ValueError: return None\<close>\<close>

definition date_or_none :: "int \<Rightarrow> int \<Rightarrow> int \<Rightarrow> py_error + date option" where
  "date_or_none y mon d =
     (case dt_date y mon d of
        Inr r \<Rightarrow> Inr (Some r)
      | Inl ValueError \<Rightarrow> Inr None
      | Inl e \<Rightarrow> Inl e)"

text \<open>
  One block of \<open>parse_accepted_date\<close> for each pattern. The result \<open>None\<close> means that the
  block did not return and the function goes on to the next pattern; \<open>Some r\<close> means
  that the function returns \<open>r\<close> (or raises) in this block. \<open>m.group(k)\<close> of a group the
  pattern does not have raises \<open>IndexError\<close>.
\<close>

definition try_dmy :: "string \<Rightarrow> (py_error + date option) option" where
  "try_dmy t =
     (case re_search ACC_DMY t of
        None \<Rightarrow> None
      | Some (i, j, [g1, g2, g3]) \<Rightarrow>
          (let d = int_of_digits g1; mon = g2; y = int_of_digits g3 in
           case month_lookup mon of
             None \<Rightarrow> None
           | Some mon_i \<Rightarrow> if mon_i \<noteq> 0 then Some (date_or_none y mon_i d) else None)
      | Some (i, j, caps) \<Rightarrow> Some (Inl IndexError))"

definition try_mdy :: "string \<Rightarrow> (py_error + date option) option" where
  "try_mdy t =
     (case re_search ACC_MDY t of
        None \<Rightarrow> None
      | Some (i, j, [g1, g2, g3]) \<Rightarrow>
          (let mon = g1; d = int_of_digits g2; y = int_of_digits g3 in
           case month_lookup mon of
             None \<Rightarrow> None
           | Some mon_i \<Rightarrow> if mon_i \<noteq> 0 then Some (date_or_none y mon_i d) else None)
      | Some (i, j, caps) \<Rightarrow> Some (Inl IndexError))"

definition try_ymd_dash :: "string \<Rightarrow> (py_error + date option) option" where
  "try_ymd_dash t =
     (case re_search ACC_YMD_DASH t of
        None \<Rightarrow> None
      | Some (i, j, [g1, g2, g3]) \<Rightarrow>
          (let y = int_of_digits g1; mon = int_of_digits g2; d = int_of_digits g3 in
           Some (date_or_none y mon d))
      | Some (i, j, caps) \<Rightarrow> Some (Inl IndexError))"

definition try_dmy_slash :: "string \<Rightarrow> (py_error + date option) option" where
  "try_dmy_slash t =
     (case re_search ACC_DMY_SLASH t of
        None \<Rightarrow> None
      | Some (i, j, [g1, g2, g3]) \<Rightarrow>
          (let d = int_of_digits g1; mon = int_of_digits g2; y = int_of_digits g3 in
           Some (date_or_none y mon d))
      | Some (i, j, caps) \<Rightarrow> Some (Inl IndexError))"

definition parse_accepted_date :: "string \<Rightarrow> py_error + date option" where
  "parse_accepted_date text =
     (let t = normalize_text_for_dates text in
      if t = [] then Inr None
      else case try_dmy t of Some r \<Rightarrow> r | None \<Rightarrow>
           (case try_mdy t of Some r \<Rightarrow> r | None \<Rightarrow>
           (case try_ymd_dash t of Some r \<Rightarrow> r | None \<Rightarrow>
           (case try_dmy_slash t of Some r \<Rightarrow> r | None \<Rightarrow> Inr None))))"

subsection \<open>infer_gender\<close>

text \<open>
  The statistical detector (\<open>gender_guesser\<close>) and the remote oracle (\<open>Genderize\<close>) are
  libraries outside the repository; they are parameters of the model.
  \<open>det.get_gender\<close> returns a string. \<open>Genderize().get([fn])\<close> raises, or returns
  something that is no list, or returns a list of dictionaries, of which the model
  keeps the value under the key \<open>gender\<close> (\<open>None\<close> when the key is missing or null).
\<close>

datatype genderize_result = Raises | NotAList | Items "string option list"

text \<open>\<open>s.split(" ")[0]\<close>\<close>

definition first_token :: "string \<Rightarrow> string" where
  "first_token s = takeWhile (\<lambda>c. c \<noteq> CHR '' '') s"

text \<open>The block guarded by \<open>use_genderize and HAVE_GENDERIZE\<close>: \<open>Some g\<close> when it
  returns \<open>g\<close>, \<open>None\<close> when control leaves it without a return (also when the
  \<open>except Exception\<close> swallows an error).\<close>

definition genderize_tier :: "(string \<Rightarrow> genderize_result) \<Rightarrow> string \<Rightarrow> string option" where
  "genderize_tier genderize_get fn =
     (case genderize_get fn of
        Raises \<Rightarrow> None
      | NotAList \<Rightarrow> None
      | Items [] \<Rightarrow> None
      | Items (g # rest) \<Rightarrow>
          (case g of
             None \<Rightarrow> None
           | Some v \<Rightarrow> if v = ''male'' \<or> v = ''female'' then Some v else None))"

definition infer_gender ::
  "bool \<Rightarrow> (string \<Rightarrow> genderize_result) \<Rightarrow> string \<Rightarrow> (string \<rightharpoonup> string) \<Rightarrow> (string \<Rightarrow> string) \<Rightarrow> bool \<Rightarrow> string" where
  "infer_gender HAVE_GENDERIZE genderize_get firstname popular_map det_get_gender use_genderize =
     (let fn = first_token (strip firstname) in
      if fn = [] then ''unknown''
      else let key = lower fn in
        if key \<in> dom popular_map \<and> (popular_map key = Some ''male'' \<or> popular_map key = Some ''female'')
        then the (popular_map key)
        else let gg = det_get_gender fn in
          if gg = ''male'' \<or> gg = ''female'' then gg
          else if gg = ''mostly_male'' then ''male''
          else if gg = ''mostly_female'' then ''female''
          else if use_genderize \<and> HAVE_GENDERIZE
          then (case genderize_tier genderize_get fn of Some g \<Rightarrow> g | None \<Rightarrow> ''unknown'')
          else ''unknown'')"

subsection \<open>The workbook and one turn of the loop of main\<close>

text \<open>A workbook is the list of its sheets, each a title and the rows appended so far.\<close>

type_synonym workbook = "(string \<times> string list list) list"

definition create_workbook :: workbook where
  "create_workbook = map (\<lambda>m. (m, [COLUMNS])) MONTH_NAMES @ [(''Sheet7'', [COLUMNS])]"

text \<open>\<open>wb[sheet].append(row)\<close>; \<open>wb[sheet]\<close> raises \<open>KeyError\<close> for a title that is not
  there.\<close>

fun ws_append :: "workbook \<Rightarrow> string \<Rightarrow> string list \<Rightarrow> py_error + workbook" where
  "ws_append [] sheet row = Inl KeyError"
| "ws_append ((title, rows) # rest) sheet row =
     (if title = sheet then Inr ((title, rows @ [row]) # rest)
      else case ws_append rest sheet row of
             Inl e \<Rightarrow> Inl e
           | Inr rest' \<Rightarrow> Inr ((title, rows) # rest'))"

text \<open>\<open>MONTH_NAMES[d.month - 1]\<close>, with Python's indexing: a negative index counts from
  the end, an index out of range raises.\<close>

definition py_index :: "'a list \<Rightarrow> int \<Rightarrow> py_error + 'a" where
  "py_index xs i =
     (if 0 \<le> i \<and> i < int (length xs) then Inr (xs ! nat i)
      else if i < 0 \<and> - int (length xs) \<le> i then Inr (xs ! nat (int (length xs) + i))
      else Inl IndexError)"

definition month_sheet_name :: "date option \<Rightarrow> py_error + string" where
  "month_sheet_name d =
     (case d of None \<Rightarrow> Inr ''Sheet7'' | Some d' \<Rightarrow> py_index MONTH_NAMES (month d' - 1))"

definition month_cell_value :: "date option \<Rightarrow> string" where
  "month_cell_value d =
     (case d of
        None \<Rightarrow> []
      | Some d' \<Rightarrow> fmt_0d 4 (year d') @ ''-'' @ fmt_0d 2 (month d') @ ''-01'')"

text \<open>\<open>sep.join(parts)\<close>\<close>

fun join :: "string \<Rightarrow> string list \<Rightarrow> string" where
  "join sep [] = []"
| "join sep [x] = x"
| "join sep (x # y # r) = x @ sep @ join sep (y # r)"

definition isoformat :: "date \<Rightarrow> string" where
  "isoformat d = fmt_0d 4 (year d) @ ''-'' @ fmt_0d 2 (month d) @ ''-'' @ fmt_0d 2 (day d)"

record LogRow =
  lr_pdf :: string
  lr_doi :: string
  lr_accepted_date :: string
  lr_status :: string
  lr_note :: string

text \<open>What one run of \<open>main\<close> is given from outside: the Crossref lookup (a network call
  that returns title and the two given names, empty strings on any failure), the table
  of popular names, the detector, the oracle and the two switches.\<close>

record env =
  env_crossref_lookup :: "string \<Rightarrow> string \<times> string \<times> string"
  env_popular_map :: "string \<rightharpoonup> string"
  env_det_get_gender :: "string \<Rightarrow> string"
  env_use_genderize :: bool
  env_HAVE_GENDERIZE :: bool
  env_genderize_get :: "string \<Rightarrow> genderize_result"

text \<open>
  The body of \<open>for pdf in pdfs\<close> in \<open>main\<close>, from the extracted text on, in the
  order of the source: the notes gathered in \<open>note_parts\<close>, the row appended to the
  sheet, the row of the log. (Moving the file afterwards touches neither.)
\<close>

definition note_parts_of :: "string \<Rightarrow> string \<Rightarrow> date option \<Rightarrow> string \<Rightarrow> string list" where
  "note_parts_of text doi acc title =
     (if text = [] then [''pdf_parse_failed''] else [])
     @ (if doi = [] then [''doi_not_found''] else [])
     @ (if acc = None then [''accepted_not_found''] else [])
     @ (if title = [] \<and> doi \<noteq> [] then [''crossref_lookup_failed''] else [])"

definition workbook_row :: "env \<Rightarrow> string \<Rightarrow> date option \<Rightarrow> string \<times> string \<times> string \<Rightarrow> string \<Rightarrow> string list" where
  "workbook_row e doi acc cr additional =
     (case cr of (title, first_fn, last_fn) \<Rightarrow>
        let g_first = infer_gender (env_HAVE_GENDERIZE e) (env_genderize_get e) first_fn
                        (env_popular_map e) (env_det_get_gender e) (env_use_genderize e);
            g_last = infer_gender (env_HAVE_GENDERIZE e) (env_genderize_get e) last_fn
                        (env_popular_map e) (env_det_get_gender e) (env_use_genderize e);
            month_val = month_cell_value acc;
            doi_url = (if doi \<noteq> [] then ''https://doi.org/'' @ doi else [])
        in [title, month_val, ''[]'', [], [], doi_url, [], [], [], additional, g_first, g_last])"

definition log_row :: "string \<Rightarrow> string \<Rightarrow> date option \<Rightarrow> string \<Rightarrow> LogRow" where
  "log_row pdf_rel doi acc additional =
     \<lparr>lr_pdf = pdf_rel, lr_doi = doi,
      lr_accepted_date = (case acc of None \<Rightarrow> [] | Some d \<Rightarrow> isoformat d),
      lr_status = (if doi \<noteq> [] \<and> acc \<noteq> None then ''ok'' else ''needs_review''),
      lr_note = additional\<rparr>"

definition process_pdf :: "env \<Rightarrow> workbook \<Rightarrow> string \<Rightarrow> string \<Rightarrow> py_error + (workbook \<times> LogRow)" where
  "process_pdf e wb pdf_rel text =
     (let doi = parse_doi text in
      case parse_accepted_date text of
        Inl err \<Rightarrow> Inl err
      | Inr acc \<Rightarrow>
         (let cr = (if doi \<noteq> [] then env_crossref_lookup e doi else ([], [], []));
              additional = join '';'' (note_parts_of text doi acc (fst cr))
          in case month_sheet_name acc of
               Inl err \<Rightarrow> Inl err
             | Inr sheet_name \<Rightarrow>
                (case ws_append wb sheet_name (workbook_row e doi acc cr additional) of
                   Inl err \<Rightarrow> Inl err
                 | Inr wb' \<Rightarrow> Inr (wb', log_row pdf_rel doi acc additional))))"

section \<open>scan_keywords_update_workbook.py\<close>

definition SEARCH_TERMS :: "string list" where
  "SEARCH_TERMS = [''open source'', ''open-source'', ''opensource'', ''open science'', ''github'',
     '' git '', ''osf'', ''jupyter'', ''notebook'', ''octave'', ''available online'', ''released'',
     ''shared'', '' code '']"

subsection \<open>notebook_style_keyword_scan\<close>

text \<open>
  \<open>re.search(keyword, page_text)\<close> compiles the keyword as a pattern, so it is a
  parameter \<open>rs\<close> of the model: \<open>Inl ReError\<close> when the keyword is no valid pattern,
  otherwise whether the pattern occurs in the page. For a keyword without
  metacharacters it is the substring test \<open>literal_search\<close>. A document is the list of
  its page texts (a page that cannot be read gives the empty text).
\<close>

definition literal_search :: "string \<Rightarrow> string \<Rightarrow> py_error + bool" where
  "literal_search keyword page_text = Inr (contains page_text keyword)"

text \<open>The loop over the pages, left by \<open>break\<close> at the first page that matches.\<close>

fun scan_pages :: "(string \<Rightarrow> string \<Rightarrow> py_error + bool) \<Rightarrow> string \<Rightarrow> string list \<Rightarrow> py_error + bool" where
  "scan_pages rs keyword [] = Inr False"
| "scan_pages rs keyword (page_text # rest) =
     (case rs keyword page_text of
        Inl e \<Rightarrow> Inl e
      | Inr True \<Rightarrow> Inr True
      | Inr False \<Rightarrow> scan_pages rs keyword rest)"

text \<open>The loop over the keywords, with the list \<open>found\<close> and the set \<open>seen\<close>.\<close>

fun scan_terms ::
  "(string \<Rightarrow> string \<Rightarrow> py_error + bool) \<Rightarrow> string list \<Rightarrow> string list \<Rightarrow> string list \<Rightarrow> string set
     \<Rightarrow> py_error + string list" where
  "scan_terms rs pages [] found seen = Inr found"
| "scan_terms rs pages (keyword # rest) found seen =
     (if keyword \<in> seen then scan_terms rs pages rest found seen
      else case scan_pages rs keyword pages of
             Inl e \<Rightarrow> Inl e
           | Inr True \<Rightarrow> scan_terms rs pages rest (found @ [keyword]) (insert keyword seen)
           | Inr False \<Rightarrow> scan_terms rs pages rest found seen)"

definition notebook_style_keyword_scan ::
  "(string \<Rightarrow> string \<Rightarrow> py_error + bool) \<Rightarrow> string list \<Rightarrow> string list \<Rightarrow> py_error + string list" where
  "notebook_style_keyword_scan rs pages search_terms = scan_terms rs pages search_terms [] {}"

subsection \<open>The workbook that is updated, and its index\<close>

text \<open>
  A cell holds text or nothing. A sheet is its title, its first row (the header) and
  the rows from row 2 on; \<open>ws.max_row\<close> is one more than the number of those rows.
  The sheets are in the order of \<open>wb.sheetnames\<close>.
\<close>

type_synonym cell = "string option"

record sheet =
  sh_title :: string
  sh_header :: "cell list"
  sh_rows :: "cell list list"

type_synonym xlsx = "sheet list"

text \<open>\<open>str(v or "")\<close> for a cell value \<open>v\<close>.\<close>

definition cell_str :: "cell \<Rightarrow> string" where
  "cell_str v = (case v of None \<Rightarrow> [] | Some s \<Rightarrow> s)"

text \<open>\<open>xs.index(x)\<close>\<close>

fun list_index :: "'a list \<Rightarrow> 'a \<Rightarrow> py_error + nat" where
  "list_index [] x = Inl ValueError"
| "list_index (y # ys) x =
     (if y = x then Inr 0
      else case list_index ys x of Inl e \<Rightarrow> Inl e | Inr n \<Rightarrow> Inr (Suc n))"

text \<open>\<open>[(r, ws.cell(r, col).value) for r in range(2, ws.max_row + 1)]\<close>; a cell that was
  never written is empty.\<close>

definition column_values :: "sheet \<Rightarrow> nat \<Rightarrow> (nat \<times> cell) list" where
  "column_values ws col =
     map (\<lambda>(k, row). (k, if 1 \<le> col \<and> col - 1 < length row then row ! (col - 1) else None))
       (enumerate 2 (sh_rows ws))"

text \<open>\<open>d[k] = v\<close> on a dictionary, which keeps the order in which its keys came in.\<close>

fun dict_set :: "('k \<times> 'v) list \<Rightarrow> 'k \<Rightarrow> 'v \<Rightarrow> ('k \<times> 'v) list" where
  "dict_set [] k v = [(k, v)]"
| "dict_set ((k', v') # rest) k v =
     (if k' = k then (k, v) # rest else (k', v') # dict_set rest k v)"

type_synonym wb_index = "(string \<times> (string \<times> nat) list) list"

fun build_index_loop :: "sheet list \<Rightarrow> wb_index \<Rightarrow> py_error + wb_index" where
  "build_index_loop [] out = Inr out"
| "build_index_loop (ws # rest) out =
     (let header = sh_header ws in
      if header = [] \<or> Some ''Link'' \<notin> set header \<or> Some ''Filename'' \<notin> set header
         \<or> Some ''Keywords Matched'' \<notin> set header
      then build_index_loop rest out
      else case list_index header (Some ''Link'') of
             Inl e \<Rightarrow> Inl e
           | Inr n \<Rightarrow>
               (let link_col = n + 1;
                    doi_rows = map (\<lambda>(r, link). (parse_doi_from_link (cell_str link), r))
                                 (column_values ws link_col)
                in build_index_loop rest (dict_set out (sh_title ws) doi_rows)))"

definition build_workbook_index :: "xlsx \<Rightarrow> py_error + wb_index" where
  "build_workbook_index wb = build_index_loop wb []"

subsection \<open>Matching one PDF to a row, in update_keywords_in_workbook\<close>

text \<open>The identifier of the PDF: the first match of \<open>DOI_RE\<close> in its first two pages.\<close>

fun doi_in_pages :: "string list \<Rightarrow> string" where
  "doi_in_pages [] = []"
| "doi_in_pages (t # rest) =
     (case re_search DOI_RE t of
        Some (i, j, caps) \<Rightarrow> lower (group0 t i j)
      | None \<Rightarrow> doi_in_pages rest)"

definition doi_in_pdf_of :: "string list \<Rightarrow> string" where
  "doi_in_pdf_of pages = doi_in_pages (take 2 pages)"

text \<open>The pair \<open>matched_sheet, matched_row\<close>; \<open>if matched_sheet\<close> holds for a title that
  is set and not empty.\<close>

type_synonym matched = "(string \<times> nat) option"

definition truthy :: "matched \<Rightarrow> bool" where
  "truthy m = (case m of None \<Rightarrow> False | Some (sheet_name, r) \<Rightarrow> sheet_name \<noteq> [])"

text \<open>The inner loop \<open>for doi, r in rows\<close>, left at the first row with the identifier.\<close>

fun find_doi_row :: "(string \<times> nat) list \<Rightarrow> string \<Rightarrow> nat option" where
  "find_doi_row [] doi_in_pdf = None"
| "find_doi_row ((d, r) # rest) doi_in_pdf =
     (if d \<noteq> [] \<and> d = doi_in_pdf then Some r else find_doi_row rest doi_in_pdf)"

text \<open>The outer loop \<open>for sheet, rows in index.items()\<close>.\<close>

fun doi_match_loop :: "wb_index \<Rightarrow> string \<Rightarrow> matched \<Rightarrow> matched" where
  "doi_match_loop [] doi_in_pdf m = m"
| "doi_match_loop ((sheet_name, rows) # rest) doi_in_pdf m =
     (let m' = (case find_doi_row rows doi_in_pdf of Some r \<Rightarrow> Some (sheet_name, r) | None \<Rightarrow> m)
      in if truthy m' then m' else doi_match_loop rest doi_in_pdf m')"

text \<open>\<open>Path.stem\<close> of a file name: the name without its last suffix; a leading or a
  trailing dot starts no suffix.\<close>

definition path_stem :: "string \<Rightarrow> string" where
  "path_stem name =
     (if CHR ''.'' \<notin> set name then name
      else let i = length name - length (takeWhile (\<lambda>c. c \<noteq> CHR ''.'') (rev name)) - 1
           in if 0 < i \<and> i < length name - 1 then take i name else name)"

text \<open>\<^verbatim>\<open>title and (title.lower() in pdf.name.lower() or pdf.stem.lower() in title.lower())\<close>\<close>

definition title_matches :: "string \<Rightarrow> string \<Rightarrow> bool" where
  "title_matches title pdf_name =
     (title \<noteq> [] \<and> (contains (lower pdf_name) (lower title)
                    \<or> contains (lower title) (lower (path_stem pdf_name))))"

text \<open>The loop over the rows of the month sheet, left at the first row that matches.\<close>

fun find_title_row :: "(nat \<times> cell) list \<Rightarrow> string \<Rightarrow> nat option" where
  "find_title_row [] pdf_name = None"
| "find_title_row ((r, v) # rest) pdf_name =
     (if title_matches (cell_str v) pdf_name then Some r else find_title_row rest pdf_name)"

text \<open>\<open>wb[name]\<close> where it is known to exist: the first sheet of that title.\<close>

definition get_sheet :: "xlsx \<Rightarrow> string \<Rightarrow> sheet option" where
  "get_sheet wb name = find (\<lambda>ws. sh_title ws = name) wb"

text \<open>
  Lines 195 to 237 for one PDF of the folder \<open>month_name\<close>: first the identifier against
  the index, then the titles of the sheet of that month. \<open>header.index("Filename")\<close>
  raises \<open>ValueError\<close> when the month sheet has no such column.
\<close>

definition match_pdf :: "xlsx \<Rightarrow> wb_index \<Rightarrow> string \<Rightarrow> string \<Rightarrow> string \<Rightarrow> py_error + matched" where
  "match_pdf wb index month_name pdf_name doi_in_pdf =
     (let m = (if doi_in_pdf \<noteq> [] then doi_match_loop index doi_in_pdf None else None)
      in if truthy m then Inr m
         else case get_sheet wb month_name of
                None \<Rightarrow> Inr m
              | Some ws \<Rightarrow>
                 (case list_index (sh_header ws) (Some ''Filename'') of
                    Inl e \<Rightarrow> Inl e
                  | Inr n \<Rightarrow>
                      (case find_title_row (column_values ws (n + 1)) pdf_name of
                         Some r \<Rightarrow> Inr (Some (month_name, r))
                       | None \<Rightarrow> Inr m)))"

text \<open>\<open>str(kws)\<close> for a list of strings that hold no quote, backslash or control
  character (such are the search terms of the script).\<close>

definition str_of_list :: "string list \<Rightarrow> string" where
  "str_of_list kws = ''['' @ join '', '' (map (\<lambda>k. [CHR 0x27] @ k @ [CHR 0x27]) kws) @ '']''"

text \<open>\<open>ws.cell(r, col).value = v\<close> for \<open>r \<ge> 2\<close>: missing rows and cells come into being
  empty.\<close>

definition set_cell :: "sheet \<Rightarrow> nat \<Rightarrow> nat \<Rightarrow> string \<Rightarrow> sheet" where
  "set_cell ws r col v =
     (let rows = sh_rows ws @ replicate (r - 1 - length (sh_rows ws)) [];
          row = rows ! (r - 2);
          row' = (row @ replicate (col - length row) None)[col - 1 := Some v]
      in ws\<lparr>sh_rows := rows[r - 2 := row']\<rparr>)"

fun replace_sheet :: "xlsx \<Rightarrow> string \<Rightarrow> sheet \<Rightarrow> xlsx" where
  "replace_sheet [] name ws' = []"
| "replace_sheet (ws # rest) name ws' =
     (if sh_title ws = name then ws' # rest else ws # replace_sheet rest name ws')"

text \<open>
  The body of \<open>for pdf in pdfs\<close>: the workbook afterwards and the row added to the log,
  \<open>[month_folder, pdf, keywords, status, doi_found_in_pdf]\<close>. The text of a caught
  exception, \<open>str(e)\<close>, is the parameter \<open>err_text\<close>.
\<close>

definition scan_one_pdf ::
  "(string \<Rightarrow> string \<Rightarrow> py_error + bool) \<Rightarrow> (py_error \<Rightarrow> string) \<Rightarrow> xlsx \<Rightarrow> wb_index \<Rightarrow> string \<Rightarrow> string
     \<Rightarrow> string list \<Rightarrow> py_error + (xlsx \<times> string list)" where
  "scan_one_pdf rs err_text wb index month_name pdf_name pages =
     (case notebook_style_keyword_scan rs pages SEARCH_TERMS of
        Inl e \<Rightarrow> Inr (wb, [month_name, pdf_name, [], ''scan_failed'', err_text e])
      | Inr kws \<Rightarrow>
          if kws = [] then Inr (wb, [month_name, pdf_name, [], ''no_keywords'', []])
          else let doi_in_pdf = doi_in_pdf_of pages in
            case match_pdf wb index month_name pdf_name doi_in_pdf of
              Inl e \<Rightarrow> Inl e
            | Inr m \<Rightarrow>
                if \<not> truthy m
                then Inr (wb, [month_name, pdf_name, str_of_list kws, ''no_match_in_xlsx'', doi_in_pdf])
                else (case m of
                        None \<Rightarrow> Inl KeyError
                      | Some (matched_sheet, matched_row) \<Rightarrow>
                         (case get_sheet wb matched_sheet of
                            None \<Rightarrow> Inl KeyError
                          | Some ws \<Rightarrow>
                             (case list_index (sh_header ws) (Some ''Keywords Matched'') of
                                Inl e \<Rightarrow> Inl e
                              | Inr n \<Rightarrow>
                                 Inr (replace_sheet wb matched_sheet
                                        (set_cell ws matched_row (n + 1) (str_of_list kws)),
                                      [month_name, pdf_name, str_of_list kws,
                                       ''updated:'' @ matched_sheet @ ''!'' @ digits_of matched_row,
                                       doi_in_pdf])))))"

section \<open>add_affiliation_country_from_pdfs.py\<close>

text \<open>
  The registry \<open>pycountry.countries\<close> is a library outside the repository; it is a
  parameter of the model, a list of entries with a name and, for some, an official and
  a common name.
\<close>

record country =
  c_name :: string
  c_official_name :: "string option"
  c_common_name :: "string option"

definition ALIASES :: "(string \<times> string) list" where
  "ALIASES = [(''usa'', ''United States''), (''u.s.a.'', ''United States''),
     (''u.s.'', ''United States''), (''united states of america'', ''United States''),
     (''uk'', ''United Kingdom''), (''u.k.'', ''United Kingdom''),
     (''england'', ''United Kingdom''), (''scotland'', ''United Kingdom''),
     (''wales'', ''United Kingdom''), (''russia'', ''Russian Federation''),
     (''south korea'', ''Korea, Republic of''),
     (''north korea'', ''Korea, Democratic People'' @ [CHR 0x27] @ ''s Republic of''),
     (''iran'', ''Iran, Islamic Republic of''), (''tanzania'', ''Tanzania, United Republic of''),
     (''viet nam'', ''Viet Nam''), (''czech republic'', ''Czechia''),
     (''bolivia'', ''Bolivia, Plurinational State of''),
     (''venezuela'', ''Venezuela, Bolivarian Republic of''), (''moldova'', ''Moldova, Republic of''),
     (''laos'', ''Lao People'' @ [CHR 0x27] @ ''s Democratic Republic''),
     (''syria'', ''Syrian Arab Republic'')]"

text \<open>The body of \<open>for c in pycountry.countries\<close>.\<close>

definition add_country :: "(string \<times> string) list \<Rightarrow> country \<Rightarrow> (string \<times> string) list" where
  "add_country name_map c =
     (let m1 = dict_set name_map (lower (c_name c)) (c_name c);
          m2 = (case c_official_name c of None \<Rightarrow> m1 | Some n \<Rightarrow> dict_set m1 (lower n) (c_name c));
          m3 = (case c_common_name c of None \<Rightarrow> m2 | Some n \<Rightarrow> dict_set m2 (lower n) (c_name c))
      in m3)"

text \<open>\<open>sorted(keys, key=len, reverse=True)\<close> is stable: keys of one length stay in the
  order of the dictionary.\<close>

definition build_country_matchers :: "country list \<Rightarrow> (string \<times> string) list \<times> string list" where
  "build_country_matchers countries =
     (let name_map = foldl add_country [] countries;
          name_map = foldl (\<lambda>m (k, v). dict_set m (lower k) v) name_map ALIASES;
          keys_sorted = sort_key (\<lambda>k. - int (length k)) (map fst name_map)
      in (name_map, keys_sorted))"

text \<open>The text that \<open>infer_country\<close> searches: lower case, padded with a space on each
  side, the characters \<open>()[]{};\<close> turned into spaces, runs of whitespace collapsed.\<close>

definition padded_text :: "string \<Rightarrow> string" where
  "padded_text text =
     (let t = '' '' @ strip (lower text) @ '' '';
          t = map (\<lambda>c. if c \<in> set ''()[]{};'' then CHR '' '' else c) t
      in sub_ws t)"

text \<open>The key at which the loop \<open>for k in keys_sorted\<close> returns.\<close>

definition first_hit :: "string list \<Rightarrow> string \<Rightarrow> string option" where
  "first_hit keys_sorted t = find (\<lambda>k. contains t ('' '' @ k @ '' '')) keys_sorted"

definition infer_country :: "string \<Rightarrow> (string \<times> string) list \<Rightarrow> string list \<Rightarrow> py_error + string" where
  "infer_country text name_map keys_sorted =
     (if text = [] then Inr []
      else case first_hit keys_sorted (padded_text text) of
             None \<Rightarrow> Inr []
           | Some k \<Rightarrow> (case map_of name_map k of None \<Rightarrow> Inl KeyError | Some v \<Rightarrow> Inr v))"

section \<open>Auxiliary notions for the properties\<close>

text \<open>Whether an item of a pattern is a capture group.\<close>

fun is_cap :: "item \<Rightarrow> bool" where
  "is_cap WB = False"
| "is_cap (Rep cls lo hi cap) = cap"

text \<open>An environment for examples: every lookup fails, the oracle is off.\<close>

definition example_env :: env where
  "example_env = \<lparr>env_crossref_lookup = (\<lambda>d. ([], [], [])), env_popular_map = Map.empty,
     env_det_get_gender = (\<lambda>n. ''unknown''), env_use_genderize = False,
     env_HAVE_GENDERIZE = False, env_genderize_get = (\<lambda>n. Raises)\<rparr>"

text \<open>The title of the data row with index \<open>i\<close> (row \<open>i + 2\<close> of the sheet), read from
  the column with index \<open>n\<close> of the header.\<close>

definition title_of :: "sheet \<Rightarrow> nat \<Rightarrow> nat \<Rightarrow> string" where
  "title_of ws n i =
     cell_str (if n < length (sh_rows ws ! i) then sh_rows ws ! i ! n else None)"

text \<open>A workbook in which two rows of the sheet \<open>January\<close> carry the same identifier.\<close>

definition dup_wb :: xlsx where
  "dup_wb = [\<lparr>sh_title = ''January'', sh_header = map Some COLUMNS,
      sh_rows = [[Some ''Paper A'', None, None, None, None, Some ''https://doi.org/10.1002/mrm.1''],
                 [Some ''Paper B'', None, None, None, None, Some ''https://doi.org/10.1002/mrm.1'']]\<rparr>]"

definition dup_index :: wb_index where
  "dup_index = [(''January'', [(''10.1002/mrm.1'', 2), (''10.1002/mrm.1'', 3)])]"

text \<open>A workbook with a row titled \<open>Smith 2024\<close> in the sheet \<open>February\<close> and a row
  titled \<open>smith2024\<close> in the sheet \<open>March\<close>; no row has a link.\<close>

definition smith_wb :: xlsx where
  "smith_wb = [\<lparr>sh_title = ''February'', sh_header = map Some COLUMNS,
                 sh_rows = [[Some ''Smith 2024'']]\<rparr>,
               \<lparr>sh_title = ''March'', sh_header = map Some COLUMNS,
                 sh_rows = [[Some ''Other paper''], [Some ''smith2024'']]\<rparr>]"

text \<open>
  The shape of a normalized text: every whitespace character is a space and no two
  spaces are adjacent; no digit stands directly before a letter; no letter stands
  directly before a digit; the text neither starts nor ends with whitespace.
\<close>

definition ws_clean :: "string \<Rightarrow> bool" where
  "ws_clean t = ((\<forall>c\<in>set t. isspace c \<longrightarrow> c = CHR '' '')
     \<and> successively (\<lambda>a b. \<not> (a = CHR '' '' \<and> b = CHR '' '')) t)"

definition no_digit_letter :: "string \<Rightarrow> bool" where
  "no_digit_letter t = successively (\<lambda>a b. \<not> (isdigit a \<and> is_az b)) t"

definition no_letter_digit :: "string \<Rightarrow> bool" where
  "no_letter_digit t = successively (\<lambda>a b. \<not> (is_az a \<and> isdigit b)) t"

definition trimmed :: "string \<Rightarrow> bool" where
  "trimmed t = (t = [] \<or> (\<not> isspace (hd t) \<and> \<not> isspace (last t)))"

text \<open>A registry for examples, of three entries; the common name of the last is the
  short name \<open>Korea\<close>, so that the lexicon holds the key \<open>korea\<close> beside
  \<open>south korea\<close>.\<close>

definition example_registry :: "country list" where
  "example_registry =
     [\<lparr>c_name = ''Canada'', c_official_name = None, c_common_name = None\<rparr>,
      \<lparr>c_name = ''Korea, Republic of'', c_official_name = None, c_common_name = Some ''South Korea''\<rparr>,
      \<lparr>c_name = ''Korea, Democratic People'' @ [CHR 0x27] @ ''s Republic of'',
       c_official_name = None, c_common_name = Some ''Korea''\<rparr>]"

text \<open>
  The identifier grammar in the words of the specification: \<open>10.\<close>, four to nine
  digits, a slash, and one or more characters that are no whitespace, quote or angle
  bracket. \<open>doi_match s i j\<close>: the part of \<open>s\<close> from position \<open>i\<close> up to position \<open>j\<close> is
  in the grammar and stands between two word boundaries, as the \<open>\b\<close> on both sides of
  \<open>DOI_RE\<close> asks.
\<close>

definition doi_grammar :: "string \<Rightarrow> bool" where
  "doi_grammar w = (\<exists>ds tl. w = ''10.'' @ ds @ ''/'' @ tl \<and> 4 \<le> length ds \<and> length ds \<le> 9
     \<and> (\<forall>c\<in>set ds. isdigit c) \<and> tl \<noteq> [] \<and> (\<forall>c\<in>set tl. doi_tail_char c))"

definition doi_match :: "string \<Rightarrow> nat \<Rightarrow> nat \<Rightarrow> bool" where
  "doi_match s i j = (i \<le> j \<and> j \<le> length s \<and> at_boundary s i \<and> at_boundary s j
     \<and> doi_grammar (take (j - i) (drop i s)))"

text \<open>
  A search for examples. The term \<open>(osf\<close> is no valid pattern, its parenthesis is
  never closed, so \<open>re.search\<close> raises \<open>re.error\<close> when it compiles it; the other terms
  of the examples hold no metacharacter.
\<close>

definition example_search :: "string \<Rightarrow> string \<Rightarrow> py_error + bool" where
  "example_search keyword page_text =
     (if keyword = ''(osf'' then Inl ReError else literal_search keyword page_text)"

(*DEFS-END*)

section \<open>Properties\<close>

subsection \<open>The matcher\<close>

lemma first_down_Some:
  "first_down f lo n = Some r \<Longrightarrow>
     \<exists>k. lo \<le> k \<and> k \<le> n \<and> f k = Some r \<and> (\<forall>k'. k < k' \<and> k' \<le> n \<longrightarrow> f k' = None)"
proof (induction n)
  case 0
  then show ?case by (auto split: if_splits)
next
  case (Suc n)
  show ?case
  proof (cases "f (Suc n)")
    case None
    with Suc.prems have lo: "\<not> Suc n < lo" and fd: "first_down f lo n = Some r"
      by (auto split: if_splits)
    from Suc.IH [OF fd] obtain k where k: "lo \<le> k" "k \<le> n" "f k = Some r"
      "\<forall>k'. k < k' \<and> k' \<le> n \<longrightarrow> f k' = None" by blast
    have "\<forall>k'. k < k' \<and> k' \<le> Suc n \<longrightarrow> f k' = None"
      using k(4) None by (auto simp: le_Suc_eq)
    with k show ?thesis by (intro exI [of _ k]) auto
  next
    case (Some a)
    with Suc.prems have "\<not> Suc n < lo" "a = r" by (auto split: if_splits)
    with Some show ?thesis by (intro exI [of _ "Suc n"]) auto
  qed
qed

lemma first_up_Some:
  "first_up f i n = Some r \<Longrightarrow>
     \<exists>k. i \<le> k \<and> k < i + n \<and> f k = Some r \<and> (\<forall>k'. i \<le> k' \<and> k' < k \<longrightarrow> f k' = None)"
proof (induction n arbitrary: i)
  case 0
  then show ?case by simp
next
  case (Suc n)
  show ?case
  proof (cases "f i")
    case None
    with Suc.prems have "first_up f (Suc i) n = Some r" by simp
    from Suc.IH [OF this] obtain k where k: "Suc i \<le> k" "k < Suc i + n" "f k = Some r"
      "\<forall>k'. Suc i \<le> k' \<and> k' < k \<longrightarrow> f k' = None" by blast
    have "\<forall>k'. i \<le> k' \<and> k' < k \<longrightarrow> f k' = None"
      using k(4) None by (metis Suc_leI le_neq_implies_less)
    with k show ?thesis by (intro exI [of _ k]) auto
  next
    case (Some a)
    with Suc.prems have "a = r" by simp
    with Some show ?thesis by (intro exI [of _ i]) auto
  qed
qed

lemma matchI_caps:
  "matchI items s i = Some (j, caps) \<Longrightarrow> length caps = length (filter is_cap items)"
proof (induction items arbitrary: i j caps)
  case Nil
  then show ?case by simp
next
  case (Cons it r)
  show ?case
  proof (cases it)
    case WB
    with Cons.prems have "matchI r s i = Some (j, caps)" by (auto split: if_splits)
    from Cons.IH [OF this] WB show ?thesis by simp
  next
    case (Rep cls lo hi cap)
    with Cons.prems obtain k where
      "(case matchI r s (i + k) of None \<Rightarrow> None
        | Some (j, caps) \<Rightarrow> Some (j, if cap then take k (drop i s) # caps else caps)) = Some (j, caps)"
      by (auto dest!: first_down_Some)
    then obtain caps' where m: "matchI r s (i + k) = Some (j, caps')"
      and c: "caps = (if cap then take k (drop i s) # caps' else caps')"
      by (auto split: option.splits)
    from Cons.IH [OF m] c Rep show ?thesis by simp
  qed
qed

lemma re_search_Some:
  "re_search items s = Some (i, j, caps) \<Longrightarrow> matchI items s i = Some (j, caps) \<and> i \<le> length s"
  unfolding re_search_def by (auto dest!: first_up_Some split: option.splits)

lemma re_search_caps:
  "re_search items s = Some (i, j, caps) \<Longrightarrow> length caps = length (filter is_cap items)"
  by (auto dest!: re_search_Some matchI_caps)

lemma caps3: "length caps = 3 \<Longrightarrow> \<exists>g1 g2 g3. caps = [g1, g2, g3]"
  by (cases caps; cases "tl caps"; cases "tl (tl caps)") auto

lemma ACC_caps:
  "length (filter is_cap ACC_DMY) = 3" "length (filter is_cap ACC_MDY) = 3"
  "length (filter is_cap ACC_YMD_DASH) = 3" "length (filter is_cap ACC_DMY_SLASH) = 3"
  by (simp_all add: ACC_DMY_def ACC_MDY_def ACC_YMD_DASH_def ACC_DMY_SLASH_def accepted_word_def LitI_def Lit_def)

lemma date_or_none_Inr: "\<exists>r. date_or_none y m d = Inr r"
  by (simp add: date_or_none_def dt_date_def)

lemma date_or_none_valid: "date_or_none y m d = Inr (Some r) \<Longrightarrow> valid_date r"
  by (auto simp: date_or_none_def dt_date_def valid_date_def split: if_splits)

lemma try_dmy_cases: "try_dmy t = None \<or> (\<exists>y m d. try_dmy t = Some (date_or_none y m d))"
  unfolding try_dmy_def
  by (auto split: option.splits list.splits prod.splits dest!: re_search_caps simp: ACC_caps Let_def)

lemma try_mdy_cases: "try_mdy t = None \<or> (\<exists>y m d. try_mdy t = Some (date_or_none y m d))"
  unfolding try_mdy_def
  by (auto split: option.splits list.splits prod.splits dest!: re_search_caps simp: ACC_caps Let_def)

lemma try_ymd_dash_cases: "try_ymd_dash t = None \<or> (\<exists>y m d. try_ymd_dash t = Some (date_or_none y m d))"
  unfolding try_ymd_dash_def
  by (auto split: option.splits list.splits prod.splits dest!: re_search_caps simp: ACC_caps Let_def)

lemma try_dmy_slash_cases: "try_dmy_slash t = None \<or> (\<exists>y m d. try_dmy_slash t = Some (date_or_none y m d))"
  unfolding try_dmy_slash_def
  by (auto split: option.splits list.splits prod.splits dest!: re_search_caps simp: ACC_caps Let_def)

lemma parse_accepted_date_unfold:
  "parse_accepted_date raw =
     (let t = normalize_text_for_dates raw in
      if t = [] then Inr None
      else case try_dmy t of Some r \<Rightarrow> r | None \<Rightarrow>
           (case try_mdy t of Some r \<Rightarrow> r | None \<Rightarrow>
           (case try_ymd_dash t of Some r \<Rightarrow> r | None \<Rightarrow>
           (case try_dmy_slash t of Some r \<Rightarrow> r | None \<Rightarrow> Inr None))))"
  by (simp add: parse_accepted_date_def)

lemma parse_accepted_date_cases:
  "parse_accepted_date raw = Inr None \<or> (\<exists>y m d. parse_accepted_date raw = date_or_none y m d)"
proof -
  define t where "t = normalize_text_for_dates raw"
  show ?thesis
  proof (cases "t = []")
    case True
    then show ?thesis by (simp add: parse_accepted_date_unfold t_def)
  next
    case ne: False
    show ?thesis
    proof (cases "try_dmy t")
      case (Some r)
      then have "parse_accepted_date raw = r"
        using ne by (simp add: parse_accepted_date_unfold t_def)
      with Some try_dmy_cases [of t] show ?thesis by auto
    next
      case n1: None
      show ?thesis
      proof (cases "try_mdy t")
        case (Some r)
        then have "parse_accepted_date raw = r"
          using ne n1 by (simp add: parse_accepted_date_unfold t_def)
        with Some try_mdy_cases [of t] show ?thesis by auto
      next
        case n2: None
        show ?thesis
        proof (cases "try_ymd_dash t")
          case (Some r)
          then have "parse_accepted_date raw = r"
            using ne n1 n2 by (simp add: parse_accepted_date_unfold t_def)
          with Some try_ymd_dash_cases [of t] show ?thesis by auto
        next
          case n3: None
          show ?thesis
          proof (cases "try_dmy_slash t")
            case (Some r)
            then have "parse_accepted_date raw = r"
              using ne n1 n2 n3 by (simp add: parse_accepted_date_unfold t_def)
            with Some try_dmy_slash_cases [of t] show ?thesis by auto
          next
            case None
            then have "parse_accepted_date raw = Inr None"
              using ne n1 n2 n3 by (simp add: parse_accepted_date_unfold t_def)
            then show ?thesis by simp
          qed
        qed
      qed
    qed
  qed
qed

lemma parse_accepted_date_total: "\<exists>r. parse_accepted_date raw = Inr r"
  using parse_accepted_date_cases [of raw] date_or_none_Inr by metis

lemma parse_accepted_date_valid: "parse_accepted_date raw = Inr (Some d) \<Longrightarrow> valid_date d"
  using parse_accepted_date_cases [of raw] date_or_none_valid by force

subsection \<open>The acceptance date\<close>

lemma month_lookup_range: "month_lookup g = Some m \<Longrightarrow> 1 \<le> m \<and> m \<le> 12"
proof -
  have r: "\<And>k v. map_of MONTH_LOOKUP k = Some v \<Longrightarrow> 1 \<le> v \<and> v \<le> 12"
  proof -
    fix k v assume "map_of MONTH_LOOKUP k = Some v"
    then have "(k, v) \<in> set MONTH_LOOKUP" by (rule map_of_SomeD)
    then show "1 \<le> v \<and> v \<le> 12" unfolding MONTH_LOOKUP_def by auto
  qed
  assume "month_lookup g = Some m"
  then show ?thesis
    unfolding month_lookup_def by (auto split: option.splits dest: r)
qed

lemma re_search_Nil_ACC:
  "re_search ACC_DMY [] = None" "re_search ACC_MDY [] = None"
  "re_search ACC_YMD_DASH [] = None" "re_search ACC_DMY_SLASH [] = None"
  by code_simp+

lemma try_dmy_hit:
  "re_search ACC_DMY t = Some (i, j, [g1, g2, g3]) \<Longrightarrow> month_lookup g2 = Some m \<Longrightarrow>
     try_dmy t = Some (date_or_none (int_of_digits g3) m (int_of_digits g1))"
  using month_lookup_range [of g2 m] by (simp add: try_dmy_def)

lemma try_mdy_hit:
  "re_search ACC_MDY t = Some (i, j, [g1, g2, g3]) \<Longrightarrow> month_lookup g1 = Some m \<Longrightarrow>
     try_mdy t = Some (date_or_none (int_of_digits g3) m (int_of_digits g2))"
  using month_lookup_range [of g1 m] by (simp add: try_mdy_def)

lemma try_ymd_dash_hit:
  "re_search ACC_YMD_DASH t = Some (i, j, [g1, g2, g3]) \<Longrightarrow>
     try_ymd_dash t = Some (date_or_none (int_of_digits g1) (int_of_digits g2) (int_of_digits g3))"
  by (simp add: try_ymd_dash_def)

lemma try_dmy_slash_hit:
  "re_search ACC_DMY_SLASH t = Some (i, j, [g1, g2, g3]) \<Longrightarrow>
     try_dmy_slash t = Some (date_or_none (int_of_digits g3) (int_of_digits g2) (int_of_digits g1))"
  by (simp add: try_dmy_slash_def)

lemma try_miss:
  "re_search ACC_DMY t = None \<Longrightarrow> try_dmy t = None"
  "re_search ACC_MDY t = None \<Longrightarrow> try_mdy t = None"
  "re_search ACC_YMD_DASH t = None \<Longrightarrow> try_ymd_dash t = None"
  by (simp_all add: try_dmy_def try_mdy_def try_ymd_dash_def)

text \<open>What the function returns when the block of a pattern returns.\<close>

lemma parse_returns_dmy:
  "normalize_text_for_dates raw = t \<Longrightarrow> try_dmy t = Some r \<Longrightarrow> t \<noteq> [] \<Longrightarrow>
     parse_accepted_date raw = r"
  by (simp add: parse_accepted_date_unfold)

lemma parse_returns_mdy:
  "normalize_text_for_dates raw = t \<Longrightarrow> try_dmy t = None \<Longrightarrow> try_mdy t = Some r \<Longrightarrow> t \<noteq> [] \<Longrightarrow>
     parse_accepted_date raw = r"
  by (simp add: parse_accepted_date_unfold)

lemma parse_returns_ymd_dash:
  "normalize_text_for_dates raw = t \<Longrightarrow> try_dmy t = None \<Longrightarrow> try_mdy t = None \<Longrightarrow>
     try_ymd_dash t = Some r \<Longrightarrow> t \<noteq> [] \<Longrightarrow> parse_accepted_date raw = r"
  by (simp add: parse_accepted_date_unfold)

lemma parse_returns_dmy_slash:
  "normalize_text_for_dates raw = t \<Longrightarrow> try_dmy t = None \<Longrightarrow> try_mdy t = None \<Longrightarrow>
     try_ymd_dash t = None \<Longrightarrow> try_dmy_slash t = Some r \<Longrightarrow> t \<noteq> [] \<Longrightarrow>
     parse_accepted_date raw = r"
  by (simp add: parse_accepted_date_unfold)

lemma date_or_none_invalid: "dt_date y m d = Inl ValueError \<Longrightarrow> date_or_none y m d = Inr None"
  by (simp add: date_or_none_def)


text \<open>
  Claim C4. \<open>parse_accepted_date\<close> never raises. When the first pattern that matches
  the normalized text (for the two patterns with a month name: with a name that
  \<open>MONTH_LOOKUP\<close> resolves) captures a day, month and year that are no calendar date,
  the function returns absent at once, whatever a later pattern would find.
\<close>

theorem accepted_invalid_date_is_absent:
  assumes t: "normalize_text_for_dates raw = t"
  shows "(\<exists>r. parse_accepted_date raw = Inr r)
    \<and> (\<forall>i j g1 g2 g3 m.
          re_search ACC_DMY t = Some (i, j, [g1, g2, g3]) \<and> month_lookup g2 = Some m
          \<and> dt_date (int_of_digits g3) m (int_of_digits g1) = Inl ValueError
          \<longrightarrow> parse_accepted_date raw = Inr None)
    \<and> (\<forall>i j g1 g2 g3 m.
          re_search ACC_DMY t = None
          \<and> re_search ACC_MDY t = Some (i, j, [g1, g2, g3]) \<and> month_lookup g1 = Some m
          \<and> dt_date (int_of_digits g3) m (int_of_digits g2) = Inl ValueError
          \<longrightarrow> parse_accepted_date raw = Inr None)
    \<and> (\<forall>i j g1 g2 g3.
          re_search ACC_DMY t = None \<and> re_search ACC_MDY t = None
          \<and> re_search ACC_YMD_DASH t = Some (i, j, [g1, g2, g3])
          \<and> dt_date (int_of_digits g1) (int_of_digits g2) (int_of_digits g3) = Inl ValueError
          \<longrightarrow> parse_accepted_date raw = Inr None)
    \<and> (\<forall>i j g1 g2 g3.
          re_search ACC_DMY t = None \<and> re_search ACC_MDY t = None
          \<and> re_search ACC_YMD_DASH t = None
          \<and> re_search ACC_DMY_SLASH t = Some (i, j, [g1, g2, g3])
          \<and> dt_date (int_of_digits g3) (int_of_digits g2) (int_of_digits g1) = Inl ValueError
          \<longrightarrow> parse_accepted_date raw = Inr None)"
proof (intro conjI allI impI)
  show "\<exists>r. parse_accepted_date raw = Inr r" by (rule parse_accepted_date_total)
next
  fix i j g1 g2 g3 m
  assume h: "re_search ACC_DMY t = Some (i, j, [g1, g2, g3]) \<and> month_lookup g2 = Some m
          \<and> dt_date (int_of_digits g3) m (int_of_digits g1) = Inl ValueError"
  then have ne: "t \<noteq> []" using re_search_Nil_ACC(1) by auto
  from h have "try_dmy t = Some (Inr None)"
    by (simp add: try_dmy_hit date_or_none_invalid)
  with ne show "parse_accepted_date raw = Inr None"
    by (intro parse_returns_dmy [of raw t]) (simp_all add: t)
next
  fix i j g1 g2 g3 m
  assume h: "re_search ACC_DMY t = None
          \<and> re_search ACC_MDY t = Some (i, j, [g1, g2, g3]) \<and> month_lookup g1 = Some m
          \<and> dt_date (int_of_digits g3) m (int_of_digits g2) = Inl ValueError"
  then have ne: "t \<noteq> []" using re_search_Nil_ACC(2) by auto
  from h have "try_mdy t = Some (Inr None)"
    by (simp add: try_mdy_hit date_or_none_invalid)
  with h ne show "parse_accepted_date raw = Inr None"
    by (intro parse_returns_mdy [of raw t]) (simp_all add: t try_miss)
next
  fix i j g1 g2 g3
  assume h: "re_search ACC_DMY t = None \<and> re_search ACC_MDY t = None
          \<and> re_search ACC_YMD_DASH t = Some (i, j, [g1, g2, g3])
          \<and> dt_date (int_of_digits g1) (int_of_digits g2) (int_of_digits g3) = Inl ValueError"
  then have ne: "t \<noteq> []" using re_search_Nil_ACC(3) by auto
  from h have "try_ymd_dash t = Some (Inr None)"
    by (simp add: try_ymd_dash_hit date_or_none_invalid)
  with h ne show "parse_accepted_date raw = Inr None"
    by (intro parse_returns_ymd_dash [of raw t]) (simp_all add: t try_miss)
next
  fix i j g1 g2 g3
  assume h: "re_search ACC_DMY t = None \<and> re_search ACC_MDY t = None
          \<and> re_search ACC_YMD_DASH t = None
          \<and> re_search ACC_DMY_SLASH t = Some (i, j, [g1, g2, g3])
          \<and> dt_date (int_of_digits g3) (int_of_digits g2) (int_of_digits g1) = Inl ValueError"
  then have ne: "t \<noteq> []" using re_search_Nil_ACC(4) by auto
  from h have "try_dmy_slash t = Some (Inr None)"
    by (simp add: try_dmy_slash_hit date_or_none_invalid)
  with h ne show "parse_accepted_date raw = Inr None"
    by (intro parse_returns_dmy_slash [of raw t]) (simp_all add: t try_miss)
qed

lemma ex_invalid_norm: "normalize_text_for_dates ''Accepted 31 April 2025'' = ''Accepted 31 April 2025''"
  by code_simp

lemma ex_invalid_search: "re_search ACC_DMY ''Accepted 31 April 2025'' = Some (0, 22, [''31'', ''April'', ''2025''])"
  by code_simp

lemma ex_invalid_month: "month_lookup ''April'' = Some 4"
  by code_simp

lemma ex_invalid_date: "dt_date (int_of_digits ''2025'') 4 (int_of_digits ''31'') = Inl ValueError"
  by code_simp

theorem accepted_invalid_date_is_absent_witness:
  "normalize_text_for_dates ''Accepted 31 April 2025'' = ''Accepted 31 April 2025''
   \<and> re_search ACC_DMY ''Accepted 31 April 2025'' = Some (0, 22, [''31'', ''April'', ''2025''])
   \<and> month_lookup ''April'' = Some 4
   \<and> dt_date (int_of_digits ''2025'') 4 (int_of_digits ''31'') = Inl ValueError
   \<and> parse_accepted_date ''Accepted 31 April 2025'' = Inr None"
proof -
  have "parse_accepted_date ''Accepted 31 April 2025'' = Inr None"
    by (rule accepted_invalid_date_is_absent [OF ex_invalid_norm, THEN conjunct2, THEN conjunct1,
          rule_format, of 0 22 "''31''" "''April''" "''2025''" 4])
       (simp add: ex_invalid_search ex_invalid_month ex_invalid_date)
  then show ?thesis
    using ex_invalid_norm ex_invalid_search ex_invalid_month ex_invalid_date by simp
qed








subsection \<open>The row of a processed PDF\<close>

lemma ws_append_total:
  "sheet_name \<in> fst ` set wb \<Longrightarrow> \<exists>wb'. ws_append wb sheet_name row = Inr wb'"
proof (induction wb)
  case Nil
  then show ?case by simp
next
  case (Cons a wb)
  obtain title rows where a: "a = (title, rows)" by (cases a)
  show ?case
  proof (cases "title = sheet_name")
    case True
    with a show ?thesis by simp
  next
    case False
    with Cons.prems a have "sheet_name \<in> fst ` set wb" by auto
    from Cons.IH [OF this] obtain rest' where "ws_append wb sheet_name row = Inr rest'" by blast
    with False a show ?thesis by simp
  qed
qed

lemma ws_append_map_of:
  "ws_append wb sheet_name row = Inr wb' \<Longrightarrow>
     map_of wb' sheet_name = Some (the (map_of wb sheet_name) @ [row])
     \<and> (\<forall>other. other \<noteq> sheet_name \<longrightarrow> map_of wb' other = map_of wb other)"
proof (induction wb arbitrary: wb')
  case Nil
  then show ?case by simp
next
  case (Cons a wb)
  obtain title rows where a: "a = (title, rows)" by (cases a)
  show ?case
  proof (cases "title = sheet_name")
    case True
    with Cons.prems a show ?thesis by auto
  next
    case False
    with Cons.prems a obtain rest' where r: "ws_append wb sheet_name row = Inr rest'"
      and w: "wb' = (title, rows) # rest'"
      by (auto split: sum.splits)
    from Cons.IH [OF r] False a w show ?thesis by auto
  qed
qed

lemma valid_date_month: "valid_date d \<Longrightarrow> 1 \<le> month d \<and> month d \<le> 12"
  by (auto simp: valid_date_def dt_date_def split: if_splits)

lemma valid_date_year: "valid_date d \<Longrightarrow> 1 \<le> year d \<and> year d \<le> 9999"
  by (auto simp: valid_date_def dt_date_def split: if_splits)

lemma month_sheet_name_valid:
  "valid_date d \<Longrightarrow> month_sheet_name (Some d) = Inr (MONTH_NAMES ! nat (month d - 1))
     \<and> MONTH_NAMES ! nat (month d - 1) \<in> set MONTH_NAMES"
proof -
  assume "valid_date d"
  then have m: "1 \<le> month d" "month d \<le> 12" using valid_date_month by auto
  have len: "length MONTH_NAMES = 12" by (simp add: MONTH_NAMES_def)
  from m len have "nat (month d - 1) < length MONTH_NAMES" by simp
  then have "MONTH_NAMES ! nat (month d - 1) \<in> set MONTH_NAMES" by (rule nth_mem)
  moreover from m len have "month_sheet_name (Some d) = Inr (MONTH_NAMES ! nat (month d - 1))"
    by (simp add: month_sheet_name_def py_index_def)
  ultimately show ?thesis by simp
qed

lemma digits_of_small: "n < 10 \<Longrightarrow> digits_of n = [char_of (48 + n)]"
  by (subst digits_of.simps) simp

lemma length_digits_of_100: "n < 100 \<Longrightarrow> length (digits_of n) \<le> 2"
proof -
  assume n: "n < 100"
  then have "n div 10 < 10" by simp
  then have "length (digits_of (n div 10)) = 1" by (simp add: digits_of_small)
  then show ?thesis by (subst digits_of.simps) (simp add: digits_of_small)
qed

lemma length_digits_of_1000: "n < 1000 \<Longrightarrow> length (digits_of n) \<le> 3"
proof -
  assume n: "n < 1000"
  then have "n div 10 < 100" by simp
  then have "length (digits_of (n div 10)) \<le> 2" by (rule length_digits_of_100)
  then show ?thesis by (subst digits_of.simps) (simp add: digits_of_small)
qed

lemma length_digits_of_10000: "n < 10000 \<Longrightarrow> length (digits_of n) \<le> 4"
proof -
  assume n: "n < 10000"
  then have "n div 10 < 1000" by simp
  then have "length (digits_of (n div 10)) \<le> 3" by (rule length_digits_of_1000)
  then show ?thesis by (subst digits_of.simps) (simp add: digits_of_small)
qed

lemma length_fmt_0d: "0 \<le> n \<Longrightarrow> length (digits_of (nat n)) \<le> w \<Longrightarrow> length (fmt_0d w n) = w"
  by (simp add: fmt_0d_def)

lemma length_month_cell_value:
  "valid_date d \<Longrightarrow> length (month_cell_value (Some d)) = 10"
proof -
  assume v: "valid_date d"
  from valid_date_year [OF v] have "length (fmt_0d 4 (year d)) = 4"
    by (intro length_fmt_0d length_digits_of_10000) auto
  moreover from valid_date_month [OF v] have "length (fmt_0d 2 (month d)) = 2"
    by (intro length_fmt_0d length_digits_of_100) auto
  ultimately show ?thesis by (simp add: month_cell_value_def)
qed

text \<open>
  Claim C10. In a workbook that has the twelve month sheets and \<open>Sheet7\<close>, the turn of
  the loop for one PDF always succeeds and appends exactly one row to exactly one
  sheet. When no Accepted date is parsed the sheet is \<open>Sheet7\<close> and the Month cell (the
  second of the row) is empty; when the date \<open>d\<close> is parsed the sheet is the one named
  after the month of \<open>d\<close> and the Month cell is the year in four digits, the month in
  two and \<open>01\<close>, ten characters in all.
\<close>

theorem process_pdf_sheet_and_month_cell:
  assumes sheets: "set MONTH_NAMES \<union> {''Sheet7''} \<subseteq> fst ` set wb"
  shows "\<exists>acc sheet_name row wb' lg.
     parse_accepted_date raw = Inr acc
     \<and> process_pdf e wb pdf_rel raw = Inr (wb', lg)
     \<and> map_of wb' sheet_name = Some (the (map_of wb sheet_name) @ [row])
     \<and> (\<forall>other. other \<noteq> sheet_name \<longrightarrow> map_of wb' other = map_of wb other)
     \<and> length row = 12
     \<and> (acc = None \<longrightarrow> sheet_name = ''Sheet7'' \<and> row ! 1 = [])
     \<and> (\<forall>d. acc = Some d \<longrightarrow>
           1 \<le> month d \<and> month d \<le> 12 \<and> sheet_name = MONTH_NAMES ! nat (month d - 1)
           \<and> row ! 1 = fmt_0d 4 (year d) @ ''-'' @ fmt_0d 2 (month d) @ ''-01''
           \<and> length (row ! 1) = 10)"
proof -
  obtain acc where acc: "parse_accepted_date raw = Inr acc"
    using parse_accepted_date_total by blast
  have valid: "\<And>d. acc = Some d \<Longrightarrow> valid_date d"
    using acc parse_accepted_date_valid by blast
  define sheet_name where
    "sheet_name = (case acc of None \<Rightarrow> ''Sheet7'' | Some d \<Rightarrow> MONTH_NAMES ! nat (month d - 1))"
  have msn: "month_sheet_name acc = Inr sheet_name"
    using valid month_sheet_name_valid
    by (cases acc) (auto simp: sheet_name_def month_sheet_name_def)
  have "sheet_name \<in> set MONTH_NAMES \<union> {''Sheet7''}"
    using valid month_sheet_name_valid by (cases acc) (auto simp: sheet_name_def)
  with sheets have mem: "sheet_name \<in> fst ` set wb" by blast
  define doi where "doi = parse_doi raw"
  define cr where "cr = (if doi \<noteq> [] then env_crossref_lookup e doi else ([], [], []))"
  define additional where "additional = join '';'' (note_parts_of raw doi acc (fst cr))"
  define row where "row = workbook_row e doi acc cr additional"
  define lg where "lg = log_row pdf_rel doi acc additional"
  from ws_append_total [OF mem] obtain wb' where app: "ws_append wb sheet_name row = Inr wb'"
    by blast
  have run: "process_pdf e wb pdf_rel raw = Inr (wb', lg)"
    using acc msn app
    unfolding process_pdf_def Let_def row_def lg_def additional_def cr_def doi_def
    by (simp split del: if_split)
  have cell: "row ! 1 = month_cell_value acc"
    by (simp add: row_def workbook_row_def Let_def split: prod.splits)
  have "length row = 12"
    by (simp add: row_def workbook_row_def Let_def split: prod.splits)
  moreover have "acc = None \<longrightarrow> sheet_name = ''Sheet7'' \<and> row ! 1 = []"
    using cell by (simp add: sheet_name_def month_cell_value_def)
  moreover have "\<forall>d. acc = Some d \<longrightarrow>
           1 \<le> month d \<and> month d \<le> 12 \<and> sheet_name = MONTH_NAMES ! nat (month d - 1)
           \<and> row ! 1 = fmt_0d 4 (year d) @ ''-'' @ fmt_0d 2 (month d) @ ''-01''
           \<and> length (row ! 1) = 10"
    using valid valid_date_month length_month_cell_value cell
    by (auto simp: sheet_name_def month_cell_value_def)
  ultimately show ?thesis
    using acc run ws_append_map_of [OF app] by blast
qed

lemma create_workbook_sheets: "set MONTH_NAMES \<union> {''Sheet7''} \<subseteq> fst ` set create_workbook"
  by (simp add: create_workbook_def MONTH_NAMES_def)

theorem process_pdf_sheet_and_month_cell_witness:
  "set MONTH_NAMES \<union> {''Sheet7''} \<subseteq> fst ` set create_workbook
   \<and> (\<exists>acc sheet_name row wb' lg.
     parse_accepted_date ''Accepted: 2 April 2025'' = Inr acc
     \<and> process_pdf example_env create_workbook ''a.pdf'' ''Accepted: 2 April 2025'' = Inr (wb', lg)
     \<and> map_of wb' sheet_name = Some (the (map_of create_workbook sheet_name) @ [row])
     \<and> length row = 12)"
  using process_pdf_sheet_and_month_cell [OF create_workbook_sheets, of "''Accepted: 2 April 2025''" example_env "''a.pdf''"]
        create_workbook_sheets
  by blast

subsection \<open>The keyword scan\<close>

lemma scan_pages_first_hit:
  "rs k p = Inr True \<Longrightarrow> \<forall>q\<in>set pre. rs k q = Inr False \<Longrightarrow>
     scan_pages rs k (pre @ p # suf) = Inr True"
  by (induction pre) auto

lemma scan_pages_hit_iff:
  "\<forall>p\<in>set pages. \<exists>b. rs k p = Inr b \<Longrightarrow>
     scan_pages rs k pages = Inr (\<exists>p\<in>set pages. rs k p = Inr True)"
proof (induction pages)
  case Nil
  then show ?case by simp
next
  case (Cons p pages)
  then obtain b where b: "rs k p = Inr b" by auto
  from Cons have ih: "scan_pages rs k pages = Inr (\<exists>p\<in>set pages. rs k p = Inr True)" by simp
  show ?case using b ih by (cases b) auto
qed

lemma scan_terms_append:
  "scan_terms rs pages (ts @ us) found (set found) =
     (case scan_terms rs pages ts found (set found) of
        Inl e \<Rightarrow> Inl e
      | Inr f \<Rightarrow> scan_terms rs pages us f (set f))"
proof (induction ts arbitrary: found)
  case Nil
  then show ?case by simp
next
  case (Cons k ts)
  show ?case
  proof (cases "k \<in> set found")
    case True
    with Cons.IH [of found] show ?thesis by simp
  next
    case False
    have s: "insert k (set found) = set (found @ [k])" by simp
    show ?thesis
    proof (cases "scan_pages rs k pages")
      case (Inl e)
      with False show ?thesis by simp
    next
      case (Inr b)
      show ?thesis
      proof (cases b)
        case True
        with Inr False Cons.IH [of "found @ [k]"] show ?thesis
          by (simp only: append_Cons scan_terms.simps s if_False sum.case bool.case)
      next
        case b: False
        with Inr False Cons.IH [of found] show ?thesis by simp
      qed
    qed
  qed
qed

lemma scan_terms_subseq:
  "scan_terms rs pages ts found seen = Inr f \<Longrightarrow> \<exists>g. f = found @ g \<and> subseq g ts"
proof (induction ts arbitrary: found seen)
  case Nil
  then show ?case by simp
next
  case (Cons k ts)
  show ?case
  proof (cases "k \<in> seen")
    case True
    with Cons.prems have "scan_terms rs pages ts found seen = Inr f" by simp
    from Cons.IH [OF this] show ?thesis by auto
  next
    case False
    show ?thesis
    proof (cases "scan_pages rs k pages")
      case (Inl e)
      with False Cons.prems show ?thesis by simp
    next
      case (Inr b)
      show ?thesis
      proof (cases b)
        case True
        with Inr False Cons.prems
        have "scan_terms rs pages ts (found @ [k]) (insert k seen) = Inr f" by simp
        from Cons.IH [OF this] obtain g where "f = (found @ [k]) @ g" "subseq g ts" by blast
        then have "f = found @ (k # g) \<and> subseq (k # g) (k # ts)" by simp
        then show ?thesis by blast
      next
        case b: False
        with Inr False Cons.prems have "scan_terms rs pages ts found seen = Inr f" by simp
        from Cons.IH [OF this] show ?thesis by auto
      qed
    qed
  qed
qed

lemma keyword_scan_value:
  "\<forall>k\<in>set terms. \<forall>p\<in>set pages. \<exists>b. rs k p = Inr b \<Longrightarrow>
     notebook_style_keyword_scan rs pages terms =
       Inr (rev (remdups (rev (filter (\<lambda>k. \<exists>p\<in>set pages. rs k p = Inr True) terms))))"
proof (induction terms rule: rev_induct)
  case Nil
  then show ?case by (simp add: notebook_style_keyword_scan_def)
next
  case (snoc k ts)
  let ?hit = "\<lambda>k. \<exists>p\<in>set pages. rs k p = Inr True"
  let ?f = "rev (remdups (rev (filter ?hit ts)))"
  from snoc have ih: "scan_terms rs pages ts [] {} = Inr ?f"
    by (simp add: notebook_style_keyword_scan_def)
  from snoc.prems have "\<forall>p\<in>set pages. \<exists>b. rs k p = Inr b" by simp
  then have sp: "scan_pages rs k pages = Inr (?hit k)" by (rule scan_pages_hit_iff)
  have "scan_terms rs pages (ts @ [k]) [] (set []) =
          (case scan_terms rs pages ts [] (set []) of
             Inl e \<Rightarrow> Inl e | Inr f \<Rightarrow> scan_terms rs pages [k] f (set f))"
    by (rule scan_terms_append)
  with ih have step: "scan_terms rs pages (ts @ [k]) [] {} = scan_terms rs pages [k] ?f (set ?f)"
    by simp
  show ?case
  proof (cases "?hit k")
    case True
    with sp step show ?thesis
      by (auto simp: notebook_style_keyword_scan_def)
  next
    case False
    with sp step show ?thesis
      by (auto simp: notebook_style_keyword_scan_def)
  qed
qed

text \<open>
  Claim C8, as amended. For terms that are valid patterns, the scan returns the terms that match
  some page, each once, in the order of their first occurrence in the term list (so the
  result is duplicate-free and a subsequence of the term list). The pages are
  scanned for a term only up to the first page that matches: whatever pages follow
  that page, and whatever a search on them would do, the scan of the term gives the
  same.
\<close>

theorem keyword_scan_first_hits_in_order:
  assumes valid: "\<forall>k\<in>set terms. \<forall>p\<in>set pages. \<exists>b. rs k p = Inr b"
  shows "\<exists>found. notebook_style_keyword_scan rs pages terms = Inr found
     \<and> found = rev (remdups (rev (filter (\<lambda>k. \<exists>p\<in>set pages. rs k p = Inr True) terms)))
     \<and> distinct found \<and> subseq found terms
     \<and> set found = {k \<in> set terms. \<exists>p\<in>set pages. rs k p = Inr True}
     \<and> (\<forall>k pre p suf more. pages = pre @ p # suf \<and> rs k p = Inr True
            \<and> (\<forall>q\<in>set pre. rs k q = Inr False)
          \<longrightarrow> scan_pages rs k (pre @ p # more) = Inr True)"
proof -
  let ?found = "rev (remdups (rev (filter (\<lambda>k. \<exists>p\<in>set pages. rs k p = Inr True) terms)))"
  have v: "notebook_style_keyword_scan rs pages terms = Inr ?found"
    using valid by (rule keyword_scan_value)
  then have "scan_terms rs pages terms [] {} = Inr ?found"
    by (simp add: notebook_style_keyword_scan_def)
  from scan_terms_subseq [OF this] have sub: "subseq ?found terms" by simp
  have "distinct ?found" by simp
  moreover have "set ?found = {k \<in> set terms. \<exists>p\<in>set pages. rs k p = Inr True}" by auto
  moreover have "\<forall>k pre p suf more. pages = pre @ p # suf \<and> rs k p = Inr True
            \<and> (\<forall>q\<in>set pre. rs k q = Inr False)
          \<longrightarrow> scan_pages rs k (pre @ p # more) = Inr True"
    using scan_pages_first_hit by blast
  ultimately show ?thesis using v sub by blast
qed

lemma literal_search_valid:
  "\<forall>k\<in>set terms. \<forall>p\<in>set pages. \<exists>b. literal_search k p = Inr b"
  by (simp add: literal_search_def)

lemma ex_scan_value:
  "notebook_style_keyword_scan literal_search [''code on github'', ''github and osf''] [''github'', ''osf'']
     = Inr [''github'', ''osf'']"
  by code_simp

theorem keyword_scan_first_hits_in_order_witness:
  "\<exists>found. notebook_style_keyword_scan literal_search [''code on github'', ''github and osf''] [''github'', ''osf'']
       = Inr found
     \<and> found = [''github'', ''osf''] \<and> distinct found \<and> subseq found [''github'', ''osf'']"
  using keyword_scan_first_hits_in_order [OF literal_search_valid,
          of "[''github'', ''osf'']" "[''code on github'', ''github and osf'']"]
        ex_scan_value
  by auto

text \<open>
  Claim C8 as stated fails on a term that is no valid pattern: the scan of
  \<open>["github", "(osf"]\<close> raises \<open>re.error\<close> at the second term and returns no list.
\<close>

theorem keyword_scan_counterexample:
  "notebook_style_keyword_scan example_search [''code on github'', ''github and (osf'']
     [''github'', ''(osf''] = Inl ReError"
  by code_simp

subsection \<open>Gender inference\<close>

lemma strip_blank: "\<forall>c\<in>set s. isspace c \<Longrightarrow> strip s = []"
  by (auto simp: strip_def dest: set_dropWhileD)

lemma genderize_tier_range:
  "genderize_tier gget fn = Some g \<Longrightarrow> g = ''male'' \<or> g = ''female''"
  by (auto simp: genderize_tier_def split: genderize_result.splits list.splits option.splits if_splits)

lemma strip_hd:
  assumes "\<not> (\<forall>c\<in>set s. isspace c)"
  shows "strip s \<noteq> [] \<and> \<not> isspace (hd (strip s))"
proof -
  define u where "u = dropWhile isspace s"
  from assms have ne: "u \<noteq> []" by (auto simp: u_def)
  then have h: "\<not> isspace (hd u)" unfolding u_def by (rule hd_dropWhile)
  define dw where "dw = dropWhile isspace (rev u)"
  have split: "rev u = takeWhile isspace (rev u) @ dw" by (simp add: dw_def)
  have "dw \<noteq> []"
  proof
    assume "dw = []"
    then have "\<forall>c\<in>set (rev u). isspace c" by (simp add: dw_def)
    with ne h show False by (cases u) auto
  qed
  from split have "u = rev dw @ rev (takeWhile isspace (rev u))"
    by (metis rev_append rev_rev_ident)
  with \<open>dw \<noteq> []\<close> have "hd (rev dw) = hd u" by (metis hd_append2 rev_is_Nil_conv)
  with h \<open>dw \<noteq> []\<close> show ?thesis by (simp add: strip_def u_def [symmetric] dw_def [symmetric])
qed

lemma first_token_Nil_iff: "first_token (strip s) = [] \<longleftrightarrow> (\<forall>c\<in>set s. isspace c)"
proof
  assume a: "first_token (strip s) = []"
  show "\<forall>c\<in>set s. isspace c"
  proof (rule ccontr)
    assume "\<not> (\<forall>c\<in>set s. isspace c)"
    from strip_hd [OF this] have "strip s \<noteq> []" "hd (strip s) \<noteq> CHR '' ''"
      by (auto simp: isspace_def)
    with a show False by (cases "strip s") (auto simp: first_token_def)
  qed
next
  assume "\<forall>c\<in>set s. isspace c"
  then show "first_token (strip s) = []" by (simp add: strip_blank first_token_def)
qed

text \<open>
  Claim C9, as amended. The name that is looked up is \<open>fn\<close>, the first token of the
  stripped input up to its first space; the key of the curated table is \<open>fn\<close> in
  lower case. The result is one of \<open>male\<close>, \<open>female\<close>, \<open>unknown\<close>. The tiers, in
  order: no name (exactly when the input is blank) gives \<open>unknown\<close>; a curated entry
  \<open>male\<close> or \<open>female\<close> under the key is returned; without one the detector decides
  when it answers \<open>male\<close>, \<open>female\<close>, \<open>mostly_male\<close> or \<open>mostly_female\<close>;
  otherwise the oracle, when enabled and installed, decides when the first item of
  its answer is \<open>male\<close> or \<open>female\<close>; in every other case (oracle off, not installed,
  raising, no list, empty list, first item without a usable gender) the result is
  \<open>unknown\<close>. Detector and oracle are arbitrary in each line, so a line that does not
  mention one of them holds whatever it would answer.
\<close>

theorem infer_gender_tiers:
  assumes fn: "fn = first_token (strip firstname)" and key: "key = lower fn"
  shows "infer_gender H gget firstname pm det ug \<in> {''male'', ''female'', ''unknown''}
   \<and> ((fn = []) = (\<forall>c\<in>set firstname. isspace c))
   \<and> (fn = [] \<longrightarrow> infer_gender H gget firstname pm det ug = ''unknown'')
   \<and> (fn \<noteq> [] \<and> pm key = Some g \<and> (g = ''male'' \<or> g = ''female'')
      \<longrightarrow> infer_gender H gget firstname pm det ug = g)
   \<and> (fn \<noteq> [] \<and> pm key \<noteq> Some ''male'' \<and> pm key \<noteq> Some ''female''
        \<and> (det fn = ''male'' \<or> det fn = ''female'')
      \<longrightarrow> infer_gender H gget firstname pm det ug = det fn)
   \<and> (fn \<noteq> [] \<and> pm key \<noteq> Some ''male'' \<and> pm key \<noteq> Some ''female''
        \<and> det fn = ''mostly_male''
      \<longrightarrow> infer_gender H gget firstname pm det ug = ''male'')
   \<and> (fn \<noteq> [] \<and> pm key \<noteq> Some ''male'' \<and> pm key \<noteq> Some ''female''
        \<and> det fn = ''mostly_female''
      \<longrightarrow> infer_gender H gget firstname pm det ug = ''female'')
   \<and> (fn \<noteq> [] \<and> pm key \<noteq> Some ''male'' \<and> pm key \<noteq> Some ''female''
        \<and> det fn \<notin> {''male'', ''female'', ''mostly_male'', ''mostly_female''}
        \<and> ug \<and> H \<and> gget fn = Items (Some v # rest) \<and> (v = ''male'' \<or> v = ''female'')
      \<longrightarrow> infer_gender H gget firstname pm det ug = v)
   \<and> (fn \<noteq> [] \<and> pm key \<noteq> Some ''male'' \<and> pm key \<noteq> Some ''female''
        \<and> det fn \<notin> {''male'', ''female'', ''mostly_male'', ''mostly_female''}
        \<and> (\<not> ug \<or> \<not> H \<or> gget fn = Raises \<or> gget fn = NotAList \<or> gget fn = Items []
            \<or> (\<exists>more. gget fn = Items (None # more))
            \<or> (\<exists>w more. gget fn = Items (Some w # more) \<and> w \<noteq> ''male'' \<and> w \<noteq> ''female''))
      \<longrightarrow> infer_gender H gget firstname pm det ug = ''unknown'')"
proof (intro conjI impI)
  show "infer_gender H gget firstname pm det ug \<in> {''male'', ''female'', ''unknown''}"
    using genderize_tier_range [of gget "first_token (strip firstname)"]
    by (auto simp: infer_gender_def Let_def split: option.splits)
next
  show "(fn = []) = (\<forall>c\<in>set firstname. isspace c)"
    unfolding fn by (rule first_token_Nil_iff)
next
  assume "fn = []"
  then show "infer_gender H gget firstname pm det ug = ''unknown''"
    using fn by (simp add: infer_gender_def)
next
  assume "fn \<noteq> [] \<and> pm key = Some g \<and> (g = ''male'' \<or> g = ''female'')"
  then show "infer_gender H gget firstname pm det ug = g"
    using fn key by (auto simp: infer_gender_def Let_def)
next
  assume "fn \<noteq> [] \<and> pm key \<noteq> Some ''male'' \<and> pm key \<noteq> Some ''female''
        \<and> (det fn = ''male'' \<or> det fn = ''female'')"
  then show "infer_gender H gget firstname pm det ug = det fn"
    using fn key by (auto simp: infer_gender_def Let_def)
next
  assume "fn \<noteq> [] \<and> pm key \<noteq> Some ''male'' \<and> pm key \<noteq> Some ''female''
        \<and> det fn = ''mostly_male''"
  then show "infer_gender H gget firstname pm det ug = ''male''"
    using fn key by (auto simp: infer_gender_def Let_def)
next
  assume "fn \<noteq> [] \<and> pm key \<noteq> Some ''male'' \<and> pm key \<noteq> Some ''female''
        \<and> det fn = ''mostly_female''"
  then show "infer_gender H gget firstname pm det ug = ''female''"
    using fn key by (auto simp: infer_gender_def Let_def)
next
  assume "fn \<noteq> [] \<and> pm key \<noteq> Some ''male'' \<and> pm key \<noteq> Some ''female''
        \<and> det fn \<notin> {''male'', ''female'', ''mostly_male'', ''mostly_female''}
        \<and> ug \<and> H \<and> gget fn = Items (Some v # rest) \<and> (v = ''male'' \<or> v = ''female'')"
  then show "infer_gender H gget firstname pm det ug = v"
    using fn key by (auto simp: infer_gender_def Let_def genderize_tier_def)
next
  assume "fn \<noteq> [] \<and> pm key \<noteq> Some ''male'' \<and> pm key \<noteq> Some ''female''
        \<and> det fn \<notin> {''male'', ''female'', ''mostly_male'', ''mostly_female''}
        \<and> (\<not> ug \<or> \<not> H \<or> gget fn = Raises \<or> gget fn = NotAList \<or> gget fn = Items []
            \<or> (\<exists>more. gget fn = Items (None # more))
            \<or> (\<exists>w more. gget fn = Items (Some w # more) \<and> w \<noteq> ''male'' \<and> w \<noteq> ''female''))"
  then show "infer_gender H gget firstname pm det ug = ''unknown''"
    using fn key by (auto simp: infer_gender_def Let_def genderize_tier_def)
qed

lemma ex_gender_token:
  "first_token (strip ''  Mary Ann'') = ''Mary''" "lower ''Mary'' = ''mary''"
  "first_token (strip ''Zed'') = ''Zed''" "lower ''Zed'' = ''zed''"
  "first_token (strip ''Mary Ann'') = ''Mary''"
  by code_simp+

theorem infer_gender_tiers_witness:
  "infer_gender True (\<lambda>n. Raises) ''  Mary Ann'' [''mary'' \<mapsto> ''female''] (\<lambda>n. ''male'') True = ''female''
   \<and> infer_gender True (\<lambda>n. Raises) ''  '' [''mary'' \<mapsto> ''female''] (\<lambda>n. ''male'') True = ''unknown''
   \<and> infer_gender True (\<lambda>n. Raises) ''Zed'' [''zed'' \<mapsto> ''unknown''] (\<lambda>n. ''mostly_male'') True = ''male''
   \<and> infer_gender True (\<lambda>n. Items [Some ''female'']) ''Zed'' Map.empty (\<lambda>n. ''andy'') True = ''female''
   \<and> infer_gender True (\<lambda>n. Raises) ''Zed'' Map.empty (\<lambda>n. ''andy'') True = ''unknown''
   \<and> infer_gender False (\<lambda>n. Items [Some ''female'']) ''Zed'' Map.empty (\<lambda>n. ''andy'') True = ''unknown''"
proof (intro conjI)
  show "infer_gender True (\<lambda>n. Raises) ''  Mary Ann'' [''mary'' \<mapsto> ''female''] (\<lambda>n. ''male'') True = ''female''"
    by (rule infer_gender_tiers [OF refl refl, THEN conjunct2, THEN conjunct2, THEN conjunct2,
          THEN conjunct1, rule_format])
       (simp add: ex_gender_token)
  have "first_token (strip ''  '') = []" by code_simp
  then show "infer_gender True (\<lambda>n. Raises) ''  '' [''mary'' \<mapsto> ''female''] (\<lambda>n. ''male'') True = ''unknown''"
    by (rule infer_gender_tiers [OF refl refl, THEN conjunct2, THEN conjunct2, THEN conjunct1, rule_format])
  show "infer_gender True (\<lambda>n. Raises) ''Zed'' [''zed'' \<mapsto> ''unknown''] (\<lambda>n. ''mostly_male'') True = ''male''"
    by (rule infer_gender_tiers [OF refl refl, THEN conjunct2, THEN conjunct2, THEN conjunct2,
          THEN conjunct2, THEN conjunct2, THEN conjunct1, rule_format])
       (simp add: ex_gender_token)
  show "infer_gender True (\<lambda>n. Items [Some ''female'']) ''Zed'' Map.empty (\<lambda>n. ''andy'') True = ''female''"
    by (rule infer_gender_tiers [OF refl refl, THEN conjunct2, THEN conjunct2, THEN conjunct2,
          THEN conjunct2, THEN conjunct2, THEN conjunct2, THEN conjunct2, THEN conjunct1, rule_format,
          where rest = "[]"])
       (simp add: ex_gender_token)
  show "infer_gender True (\<lambda>n. Raises) ''Zed'' Map.empty (\<lambda>n. ''andy'') True = ''unknown''"
    by (rule infer_gender_tiers [OF refl refl, THEN conjunct2, THEN conjunct2, THEN conjunct2,
          THEN conjunct2, THEN conjunct2, THEN conjunct2, THEN conjunct2, THEN conjunct2, rule_format])
       (simp add: ex_gender_token)
  show "infer_gender False (\<lambda>n. Items [Some ''female'']) ''Zed'' Map.empty (\<lambda>n. ''andy'') True = ''unknown''"
    by (rule infer_gender_tiers [OF refl refl, THEN conjunct2, THEN conjunct2, THEN conjunct2,
          THEN conjunct2, THEN conjunct2, THEN conjunct2, THEN conjunct2, THEN conjunct2, rule_format])
       (simp add: ex_gender_token)
qed

text \<open>
  Claim C9 as stated fails on a name of two words: the curated table maps the key
  \<open>mary ann\<close> to \<open>female\<close>, the input is \<open>Mary Ann\<close>, and the result is \<open>unknown\<close>,
  because only \<open>mary\<close> is looked up. With an entry for \<open>mary\<close> beside it, that entry
  decides.
\<close>

theorem infer_gender_counterexample:
  "infer_gender False (\<lambda>n. Raises) ''Mary Ann'' [''mary ann'' \<mapsto> ''female''] (\<lambda>n. ''unknown'') False
     = ''unknown''
   \<and> infer_gender False (\<lambda>n. Raises) ''Mary Ann'' [''mary ann'' \<mapsto> ''female'', ''mary'' \<mapsto> ''male'']
       (\<lambda>n. ''unknown'') False = ''male''"
  by (simp add: infer_gender_def ex_gender_token)

subsection \<open>Matching a PDF to a row\<close>

text \<open>
  Claim C1. The docstring of the script says: if multiple rows match, the first one is
  updated and an ambiguity warning is logged. With two rows that carry the identifier
  of the PDF the code updates the first of them, row 2, and the row of the log has the
  status \<open>updated:January!2\<close>: the status is the same as for a unique match, and
  nothing is reported as ambiguous.
\<close>

theorem duplicate_identifier_logged_as_plain_update:
  "build_workbook_index dup_wb = Inr dup_index
   \<and> scan_one_pdf literal_search (\<lambda>e. []) dup_wb dup_index ''January'' ''paper.pdf''
        [''code on github, doi 10.1002/MRM.1 '']
     = Inr (replace_sheet dup_wb ''January'' (set_cell (hd dup_wb) 2 3 (str_of_list [''github''])),
            [''January'', ''paper.pdf'', str_of_list [''github''], ''updated:January!2'', ''10.1002/mrm.1''])"
  by code_simp

lemma find_title_row_find:
  "find_title_row kvs pdf_name =
     map_option fst (find (\<lambda>kv. title_matches (cell_str (snd kv)) pdf_name) kvs)"
  by (induction kvs) auto

lemma column_values_nth:
  "i < length (sh_rows ws) \<Longrightarrow>
     column_values ws (Suc n) ! i = (i + 2, if n < length (sh_rows ws ! i) then sh_rows ws ! i ! n else None)"
  by (simp add: column_values_def nth_enumerate_eq)

lemma length_column_values: "length (column_values ws col) = length (sh_rows ws)"
  by (simp add: column_values_def)

lemma column_values_title:
  "i < length (sh_rows ws) \<Longrightarrow>
     title_matches (cell_str (snd (column_values ws (Suc n) ! i))) pdf_name
       = title_matches (title_of ws n i) pdf_name"
  by (simp add: column_values_nth title_of_def)

lemma find_title_row_Some:
  "find_title_row (column_values ws (Suc n)) pdf_name = Some r \<longleftrightarrow>
     (\<exists>i. r = i + 2 \<and> i < length (sh_rows ws) \<and> title_matches (title_of ws n i) pdf_name
          \<and> (\<forall>j<i. \<not> title_matches (title_of ws n j) pdf_name))"
proof -
  define P where "P = (\<lambda>kv :: nat \<times> cell. title_matches (cell_str (snd kv)) pdf_name)"
  define kvs where "kvs = column_values ws (Suc n)"
  have len: "length kvs = length (sh_rows ws)" by (simp add: kvs_def length_column_values)
  have P: "\<And>i. i < length (sh_rows ws) \<Longrightarrow> P (kvs ! i) = title_matches (title_of ws n i) pdf_name"
    by (simp add: P_def kvs_def column_values_title)
  have fst: "\<And>i. i < length (sh_rows ws) \<Longrightarrow> fst (kvs ! i) = i + 2"
    by (simp add: kvs_def column_values_nth)
  have f: "find_title_row kvs pdf_name = map_option fst (find P kvs)"
    by (simp add: find_title_row_find P_def)
  show ?thesis
  proof
    assume "find_title_row (column_values ws (Suc n)) pdf_name = Some r"
    with f have "map_option fst (find P kvs) = Some r" by (simp add: kvs_def)
    then obtain kv where fk: "find P kvs = Some kv" and r: "r = fst kv"
      by (cases "find P kvs") auto
    from fk obtain i where i: "i < length kvs" "P (kvs ! i)" "kv = kvs ! i" "\<forall>j<i. \<not> P (kvs ! j)"
      unfolding find_Some_iff by blast
    from i(1) len have il: "i < length (sh_rows ws)" by simp
    have "r = i + 2" using r i(3) fst [OF il] by simp
    moreover have "title_matches (title_of ws n i) pdf_name" using i(2) P [OF il] by simp
    moreover have "\<forall>j<i. \<not> title_matches (title_of ws n j) pdf_name"
    proof (intro allI impI)
      fix j assume j: "j < i"
      with il have jl: "j < length (sh_rows ws)" by simp
      from i(4) j have "\<not> P (kvs ! j)" by simp
      with P [OF jl] show "\<not> title_matches (title_of ws n j) pdf_name" by simp
    qed
    ultimately show "\<exists>i. r = i + 2 \<and> i < length (sh_rows ws) \<and> title_matches (title_of ws n i) pdf_name
          \<and> (\<forall>j<i. \<not> title_matches (title_of ws n j) pdf_name)"
      using il by blast
  next
    assume "\<exists>i. r = i + 2 \<and> i < length (sh_rows ws) \<and> title_matches (title_of ws n i) pdf_name
          \<and> (\<forall>j<i. \<not> title_matches (title_of ws n j) pdf_name)"
    then obtain i where i: "r = i + 2" "i < length (sh_rows ws)" "title_matches (title_of ws n i) pdf_name"
      "\<forall>j<i. \<not> title_matches (title_of ws n j) pdf_name" by blast
    have 1: "i < length kvs" using i(2) len by simp
    have 2: "P (kvs ! i)" using i(3) P [OF i(2)] by simp
    have 3: "\<forall>j<i. \<not> P (kvs ! j)"
    proof (intro allI impI)
      fix j assume j: "j < i"
      with i(2) have jl: "j < length (sh_rows ws)" by simp
      from i(4) j have "\<not> title_matches (title_of ws n j) pdf_name" by simp
      with P [OF jl] show "\<not> P (kvs ! j)" by simp
    qed
    have "find P kvs = Some (kvs ! i)"
      unfolding find_Some_iff using 1 2 3 by blast
    then have "find_title_row kvs pdf_name = Some (fst (kvs ! i))" using f by simp
    then show "find_title_row (column_values ws (Suc n)) pdf_name = Some r"
      using fst [OF i(2)] i(1) by (simp add: kvs_def)
  qed
qed

lemma find_title_row_None:
  "find_title_row (column_values ws (Suc n)) pdf_name = None \<longleftrightarrow>
     (\<forall>i<length (sh_rows ws). \<not> title_matches (title_of ws n i) pdf_name)"
proof -
  have "find_title_row (column_values ws (Suc n)) pdf_name = None \<longleftrightarrow>
          (\<forall>r. find_title_row (column_values ws (Suc n)) pdf_name \<noteq> Some r)" by auto
  also have "\<dots> \<longleftrightarrow> (\<forall>i<length (sh_rows ws). \<not> title_matches (title_of ws n i) pdf_name)"
  proof
    assume a: "\<forall>r. find_title_row (column_values ws (Suc n)) pdf_name \<noteq> Some r"
    show "\<forall>i<length (sh_rows ws). \<not> title_matches (title_of ws n i) pdf_name"
    proof (intro allI impI notI)
      fix i assume il: "i < length (sh_rows ws)" and m: "title_matches (title_of ws n i) pdf_name"
      define k where "k = (LEAST k. title_matches (title_of ws n k) pdf_name)"
      have km: "title_matches (title_of ws n k) pdf_name" unfolding k_def using m by (rule LeastI)
      have kl: "k \<le> i" unfolding k_def using m by (rule Least_le)
      have "\<forall>j<k. \<not> title_matches (title_of ws n j) pdf_name"
        unfolding k_def using not_less_Least by blast
      with km kl il have "find_title_row (column_values ws (Suc n)) pdf_name = Some (k + 2)"
        unfolding find_title_row_Some by auto
      with a show False by simp
    qed
  next
    assume "\<forall>i<length (sh_rows ws). \<not> title_matches (title_of ws n i) pdf_name"
    then show "\<forall>r. find_title_row (column_values ws (Suc n)) pdf_name \<noteq> Some r"
      unfolding find_title_row_Some by blast
  qed
  finally show ?thesis .
qed

lemma match_pdf_no_doi:
  "match_pdf wb index month_name pdf_name [] =
     (case get_sheet wb month_name of
        None \<Rightarrow> Inr None
      | Some ws \<Rightarrow>
         (case list_index (sh_header ws) (Some ''Filename'') of
            Inl e \<Rightarrow> Inl e
          | Inr n \<Rightarrow>
              (case find_title_row (column_values ws (n + 1)) pdf_name of
                 Some r \<Rightarrow> Inr (Some (month_name, r))
               | None \<Rightarrow> Inr None)))"
  by (simp add: match_pdf_def truthy_def)

text \<open>
  Claim C2, as amended. A document without an identifier is matched against the rows
  of one sheet only, the first sheet titled like the month folder of the document,
  whatever the index and the other sheets hold. Without that sheet nothing matches.
  Otherwise the match is the first row, in row order, whose title is not empty and,
  in lower case, is contained in the file name or contains the stem of the file name;
  without such a row nothing matches.
\<close>

theorem title_fallback_within_month_sheet:
  "(get_sheet wb month_name = None \<longrightarrow> match_pdf wb index month_name pdf_name [] = Inr None)
   \<and> (get_sheet wb month_name = Some ws \<and> list_index (sh_header ws) (Some ''Filename'') = Inr n
      \<longrightarrow> (\<forall>r. match_pdf wb index month_name pdf_name [] = Inr (Some (month_name, r)) \<longleftrightarrow>
              (\<exists>i. r = i + 2 \<and> i < length (sh_rows ws) \<and> title_matches (title_of ws n i) pdf_name
                   \<and> (\<forall>j<i. \<not> title_matches (title_of ws n j) pdf_name)))
        \<and> (match_pdf wb index month_name pdf_name [] = Inr None \<longleftrightarrow>
              (\<forall>i<length (sh_rows ws). \<not> title_matches (title_of ws n i) pdf_name))
        \<and> (\<exists>m. match_pdf wb index month_name pdf_name [] = Inr m))
   \<and> (title_matches title pdf_name \<longleftrightarrow>
        title \<noteq> [] \<and> (contains (lower pdf_name) (lower title)
                       \<or> contains (lower title) (lower (path_stem pdf_name))))"
proof (intro conjI impI allI)
  assume "get_sheet wb month_name = None"
  then show "match_pdf wb index month_name pdf_name [] = Inr None"
    by (simp add: match_pdf_no_doi)
next
  fix r
  assume "get_sheet wb month_name = Some ws \<and> list_index (sh_header ws) (Some ''Filename'') = Inr n"
  then have m: "match_pdf wb index month_name pdf_name [] =
      (case find_title_row (column_values ws (Suc n)) pdf_name of
         Some r \<Rightarrow> Inr (Some (month_name, r)) | None \<Rightarrow> Inr None)"
    by (simp add: match_pdf_no_doi)
  have "match_pdf wb index month_name pdf_name [] = Inr (Some (month_name, r)) \<longleftrightarrow>
          find_title_row (column_values ws (Suc n)) pdf_name = Some r"
    unfolding m by (auto split: option.splits)
  then show "match_pdf wb index month_name pdf_name [] = Inr (Some (month_name, r)) \<longleftrightarrow>
              (\<exists>i. r = i + 2 \<and> i < length (sh_rows ws) \<and> title_matches (title_of ws n i) pdf_name
                   \<and> (\<forall>j<i. \<not> title_matches (title_of ws n j) pdf_name))"
    unfolding find_title_row_Some .
next
  assume "get_sheet wb month_name = Some ws \<and> list_index (sh_header ws) (Some ''Filename'') = Inr n"
  then have m: "match_pdf wb index month_name pdf_name [] =
      (case find_title_row (column_values ws (Suc n)) pdf_name of
         Some r \<Rightarrow> Inr (Some (month_name, r)) | None \<Rightarrow> Inr None)"
    by (simp add: match_pdf_no_doi)
  have "match_pdf wb index month_name pdf_name [] = Inr None \<longleftrightarrow>
          find_title_row (column_values ws (Suc n)) pdf_name = None"
    unfolding m by (auto split: option.splits)
  then show "match_pdf wb index month_name pdf_name [] = Inr None \<longleftrightarrow>
              (\<forall>i<length (sh_rows ws). \<not> title_matches (title_of ws n i) pdf_name)"
    unfolding find_title_row_None .
  show "\<exists>m. match_pdf wb index month_name pdf_name [] = Inr m"
    unfolding m by (auto split: option.splits)
next
  show "title_matches title pdf_name \<longleftrightarrow>
        title \<noteq> [] \<and> (contains (lower pdf_name) (lower title)
                       \<or> contains (lower title) (lower (path_stem pdf_name)))"
    by (simp add: title_matches_def)
qed

lemma ex_smith_sheet:
  "get_sheet smith_wb ''March'' = Some (smith_wb ! 1)"
  "list_index (sh_header (smith_wb ! 1)) (Some ''Filename'') = Inr 0"
  by code_simp+

lemma ex_smith_titles:
  "title_matches (title_of (smith_wb ! 1) 0 1) ''smith2024.pdf''"
  "\<not> title_matches (title_of (smith_wb ! 1) 0 0) ''smith2024.pdf''"
  "length (sh_rows (smith_wb ! 1)) = 2"
  by code_simp+

theorem title_fallback_within_month_sheet_witness:
  "match_pdf smith_wb [] ''March'' ''smith2024.pdf'' [] = Inr (Some (''March'', 3))"
proof -
  have "\<exists>i. (3::nat) = i + 2 \<and> i < length (sh_rows (smith_wb ! 1))
          \<and> title_matches (title_of (smith_wb ! 1) 0 i) ''smith2024.pdf''
          \<and> (\<forall>j<i. \<not> title_matches (title_of (smith_wb ! 1) 0 j) ''smith2024.pdf'')"
    using ex_smith_titles by (intro exI [of _ 1]) auto
  then show ?thesis
    using title_fallback_within_month_sheet [of smith_wb "''March''" "[]" "''smith2024.pdf''"
            "smith_wb ! 1" 0 "[]", THEN conjunct2, THEN conjunct1] ex_smith_sheet
    by blast
qed

text \<open>
  Claim C2 as stated fails twice. The title \<open>Smith 2024\<close> and the file name
  \<open>smith2024.pdf\<close> contain each other in neither direction (the space is in the way),
  so the document of the folder \<open>February\<close> matches nothing. And the rows of the other
  sheets are not searched: the same document in the folder \<open>February\<close> does not match the
  row of the sheet \<open>March\<close> that is titled \<open>smith2024\<close>.
\<close>

theorem title_fallback_counterexample:
  "build_workbook_index smith_wb = Inr [(''February'', [([], 2)]), (''March'', [([], 2), ([], 3)])]
   \<and> \<not> title_matches ''Smith 2024'' ''smith2024.pdf''
   \<and> title_matches ''smith2024'' ''smith2024.pdf''
   \<and> match_pdf smith_wb [(''February'', [([], 2)]), (''March'', [([], 2), ([], 3)])]
        ''February'' ''smith2024.pdf'' [] = Inr None"
  by code_simp

subsection \<open>The normalizer\<close>

lemma class_facts:
  "isspace CHR '' ''" "isspace (CHR 0x09)" "isspace (CHR 0xA0)"
  "CHR 0x09 \<noteq> CHR '' ''" "CHR 0xA0 \<noteq> CHR '' ''"
  "\<not> isdigit CHR '' ''" "\<not> is_az CHR '' ''"
  by (simp_all add: isspace_def isdigit_def is_az_def)

lemma class_disjoint:
  "isdigit c \<Longrightarrow> \<not> isspace c" "is_az c \<Longrightarrow> \<not> isspace c" "isdigit c \<Longrightarrow> \<not> is_az c"
  by (auto simp: isspace_def isdigit_def is_az_def Let_def)

lemma replace_char_absent: "a \<notin> set t \<Longrightarrow> replace_char a b t = t"
  by (induction t) (auto simp: replace_char_def)

lemma sub_ws_id: "ws_clean t \<Longrightarrow> sub_ws t = t"
proof (induction t)
  case Nil
  then show ?case by simp
next
  case (Cons c cs)
  from Cons.prems have tl: "ws_clean cs"
    by (auto simp: ws_clean_def successively_Cons)
  then have ih: "sub_ws cs = cs" by (rule Cons.IH)
  show ?case
  proof (cases "isspace c")
    case False
    with ih show ?thesis by simp
  next
    case True
    with Cons.prems have c: "c = CHR '' ''" by (simp add: ws_clean_def)
    have "dropWhile isspace cs = cs"
    proof (cases cs)
      case Nil
      then show ?thesis by simp
    next
      case (Cons d ds)
      with Cons.prems c have "d \<noteq> CHR '' ''" by (auto simp: ws_clean_def)
      moreover from Cons Cons.prems have "isspace d \<longrightarrow> d = CHR '' ''" by (simp add: ws_clean_def)
      ultimately have "\<not> isspace d" by blast
      with Cons show ?thesis by simp
    qed
    with True c ih show ?thesis by simp
  qed
qed

lemma sub_ws_set: "c \<in> set (sub_ws t) \<Longrightarrow> c = CHR '' '' \<or> (c \<in> set t \<and> \<not> isspace c)"
proof (induction t arbitrary: c rule: sub_ws.induct)
  case 1
  then show ?case by simp
next
  case (2 d ds)
  show ?case
  proof (cases "isspace d")
    case True
    with 2 show ?thesis by (auto dest: set_dropWhileD)
  next
    case False
    with 2 show ?thesis by auto
  qed
qed

lemma sub_ws_hd: "t \<noteq> [] \<Longrightarrow> \<not> isspace (hd t) \<Longrightarrow> sub_ws t \<noteq> [] \<and> hd (sub_ws t) = hd t"
  by (cases t) auto

lemma sub_ws_clean: "ws_clean (sub_ws t)"
proof -
  have 1: "\<forall>c\<in>set (sub_ws t). isspace c \<longrightarrow> c = CHR '' ''"
    using sub_ws_set by blast
  have 2: "successively (\<lambda>a b. \<not> (a = CHR '' '' \<and> b = CHR '' '')) (sub_ws t)"
  proof (induction t rule: sub_ws.induct)
    case 1
    then show ?case by simp
  next
    case (2 d ds)
    show ?case
    proof (cases "isspace d")
      case True
      let ?r = "dropWhile isspace ds"
      have "?r = [] \<or> hd (sub_ws ?r) \<noteq> CHR '' ''"
      proof (cases "?r = []")
        case True
        then show ?thesis by simp
      next
        case False
        then have "\<not> isspace (hd ?r)" by (rule hd_dropWhile)
        with False sub_ws_hd [of ?r] class_facts(1) show ?thesis by auto
      qed
      moreover have "successively (\<lambda>a b. \<not> (a = CHR '' '' \<and> b = CHR '' '')) (sub_ws ?r)"
        using True 2 by simp
      moreover have "sub_ws (d # ds) = CHR '' '' # sub_ws ?r" using True by simp
      moreover have "?r = [] \<Longrightarrow> sub_ws ?r = []" by (simp del: dropWhile_eq_Nil_conv)
      ultimately show ?thesis
        by (cases "?r = []") (simp_all add: successively_Cons del: dropWhile_eq_Nil_conv)
    next
      case False
      then have "d \<noteq> CHR '' ''" using class_facts(1) by auto
      with False 2 show ?thesis by (auto simp: successively_Cons)
    qed
  qed
  from 1 2 show ?thesis by (simp add: ws_clean_def)
qed

lemma sub_digit_letter_id: "no_digit_letter t \<Longrightarrow> sub_digit_letter t = t"
  unfolding no_digit_letter_def
  by (induction t rule: sub_digit_letter.induct) auto

lemma sub_letter_digit_id: "no_letter_digit t \<Longrightarrow> sub_letter_digit t = t"
  unfolding no_letter_digit_def
  by (induction t rule: sub_letter_digit.induct) auto

lemma sub_digit_letter_hd: "sub_digit_letter t = [] \<longleftrightarrow> t = []" "t \<noteq> [] \<Longrightarrow> hd (sub_digit_letter t) = hd t"
  by (induction t rule: sub_digit_letter.induct) auto

lemma sub_letter_digit_hd: "sub_letter_digit t = [] \<longleftrightarrow> t = []" "t \<noteq> [] \<Longrightarrow> hd (sub_letter_digit t) = hd t"
  by (induction t rule: sub_letter_digit.induct) auto

lemma sub_digit_letter_set: "set (sub_digit_letter t) \<subseteq> insert CHR '' '' (set t)"
  by (induction t rule: sub_digit_letter.induct) auto

lemma sub_letter_digit_set: "set (sub_letter_digit t) \<subseteq> insert CHR '' '' (set t)"
  by (induction t rule: sub_letter_digit.induct) auto

text \<open>A relation on neighbours that the inserted space satisfies on both sides survives
  the substitution.\<close>

lemma sub_digit_letter_succ:
  assumes "\<And>a b. isdigit a \<Longrightarrow> is_az b \<Longrightarrow> P a CHR '' '' \<and> P CHR '' '' b"
  shows "successively P t \<Longrightarrow> successively P (sub_digit_letter t)"
proof (induction t rule: sub_digit_letter.induct)
  case (1 a b r)
  show ?case
  proof (cases "isdigit a \<and> is_az b")
    case True
    from 1 have "successively P r" by (cases r) auto
    with 1 True have ih: "successively P (sub_digit_letter r)" by simp
    have "r = [] \<or> P b (hd (sub_digit_letter r))"
      using 1(3) sub_digit_letter_hd(2) [of r] by (cases r) auto
    with True ih assms [of a b] sub_digit_letter_hd(1) [of r] show ?thesis
      by (auto simp: successively_Cons)
  next
    case False
    with 1 have ih: "successively P (sub_digit_letter (b # r))" by simp
    from 1(3) have "P a b" by simp
    with False ih sub_digit_letter_hd [of "b # r"] show ?thesis
      by (auto simp: successively_Cons)
  qed
qed simp_all

lemma sub_letter_digit_succ:
  assumes "\<And>a b. is_az a \<Longrightarrow> isdigit b \<Longrightarrow> P a CHR '' '' \<and> P CHR '' '' b"
  shows "successively P t \<Longrightarrow> successively P (sub_letter_digit t)"
proof (induction t rule: sub_letter_digit.induct)
  case (1 a b r)
  show ?case
  proof (cases "is_az a \<and> isdigit b")
    case True
    from 1 have "successively P r" by (cases r) auto
    with 1 True have ih: "successively P (sub_letter_digit r)" by simp
    have "r = [] \<or> P b (hd (sub_letter_digit r))"
      using 1(3) sub_letter_digit_hd(2) [of r] by (cases r) auto
    with True ih assms [of a b] sub_letter_digit_hd(1) [of r] show ?thesis
      by (auto simp: successively_Cons)
  next
    case False
    with 1 have ih: "successively P (sub_letter_digit (b # r))" by simp
    from 1(3) have "P a b" by simp
    with False ih sub_letter_digit_hd [of "b # r"] show ?thesis
      by (auto simp: successively_Cons)
  qed
qed simp_all

lemma sub_digit_letter_clean: "ws_clean t \<Longrightarrow> ws_clean (sub_digit_letter t)"
proof -
  assume w: "ws_clean t"
  have "successively (\<lambda>a b. \<not> (a = CHR '' '' \<and> b = CHR '' '')) (sub_digit_letter t)"
    using w class_facts(6,7) by (intro sub_digit_letter_succ) (auto simp: ws_clean_def)
  moreover have "\<forall>c\<in>set (sub_digit_letter t). isspace c \<longrightarrow> c = CHR '' ''"
    using w sub_digit_letter_set [of t] by (auto simp: ws_clean_def)
  ultimately show ?thesis by (simp add: ws_clean_def)
qed

lemma sub_letter_digit_clean: "ws_clean t \<Longrightarrow> ws_clean (sub_letter_digit t)"
proof -
  assume w: "ws_clean t"
  have "successively (\<lambda>a b. \<not> (a = CHR '' '' \<and> b = CHR '' '')) (sub_letter_digit t)"
    using w class_facts(6,7) by (intro sub_letter_digit_succ) (auto simp: ws_clean_def)
  moreover have "\<forall>c\<in>set (sub_letter_digit t). isspace c \<longrightarrow> c = CHR '' ''"
    using w sub_letter_digit_set [of t] by (auto simp: ws_clean_def)
  ultimately show ?thesis by (simp add: ws_clean_def)
qed

lemma sub_digit_letter_done: "no_digit_letter (sub_digit_letter t)"
  unfolding no_digit_letter_def
proof (induction t rule: sub_digit_letter.induct)
  case (1 a b r)
  show ?case
  proof (cases "isdigit a \<and> is_az b")
    case True
    have "r = [] \<or> \<not> (isdigit b \<and> is_az (hd (sub_digit_letter r)))"
      using True class_disjoint(3) [of b] by auto
    with True 1 class_facts(6,7) sub_digit_letter_hd(1) [of r] show ?thesis
      by (auto simp: successively_Cons)
  next
    case False
    with 1 sub_digit_letter_hd [of "b # r"] show ?thesis
      by (auto simp: successively_Cons)
  qed
qed simp_all

lemma sub_letter_digit_done: "no_letter_digit (sub_letter_digit t)"
  unfolding no_letter_digit_def
proof (induction t rule: sub_letter_digit.induct)
  case (1 a b r)
  show ?case
  proof (cases "is_az a \<and> isdigit b")
    case True
    have "r = [] \<or> \<not> (is_az b \<and> isdigit (hd (sub_letter_digit r)))"
      using True class_disjoint(3) [of b] by auto
    with True 1 class_facts(6,7) sub_letter_digit_hd(1) [of r] show ?thesis
      by (auto simp: successively_Cons)
  next
    case False
    with 1 sub_letter_digit_hd [of "b # r"] show ?thesis
      by (auto simp: successively_Cons)
  qed
qed simp_all

lemma sub_letter_digit_keeps: "no_digit_letter t \<Longrightarrow> no_digit_letter (sub_letter_digit t)"
  unfolding no_digit_letter_def
  using class_facts(6,7) by (intro sub_letter_digit_succ) auto

lemma successively_dropWhile: "successively P xs \<Longrightarrow> successively P (dropWhile Q xs)"
proof -
  assume "successively P xs"
  then have "successively P (takeWhile Q xs @ dropWhile Q xs)" by simp
  then show ?thesis unfolding successively_append_iff by blast
qed

lemma successively_strip: "successively P t \<Longrightarrow> successively P (strip t)"
proof -
  assume "successively P t"
  then have "successively P (dropWhile isspace t)" by (rule successively_dropWhile)
  then have "successively (\<lambda>x y. P y x) (rev (dropWhile isspace t))" by simp
  then have "successively (\<lambda>x y. P y x) (dropWhile isspace (rev (dropWhile isspace t)))"
    by (rule successively_dropWhile)
  then show ?thesis by (simp add: strip_def)
qed

lemma strip_set: "set (strip t) \<subseteq> set t"
  by (auto simp: strip_def dest!: set_dropWhileD)

lemma strip_trimmed: "trimmed (strip t)"
proof (cases "strip t = []")
  case True
  then show ?thesis by (simp add: trimmed_def)
next
  case False
  let ?u = "dropWhile isspace t"
  let ?v = "dropWhile isspace (rev ?u)"
  from False have v: "?v \<noteq> []" by (simp add: strip_def)
  then have u: "?u \<noteq> []" by (auto simp del: dropWhile_eq_Nil_conv)
  have "last (strip t) = hd ?v" using v by (simp add: strip_def last_rev)
  moreover have "\<not> isspace (hd ?v)" using v by (rule hd_dropWhile)
  ultimately have l: "\<not> isspace (last (strip t))" by simp
  have "rev ?u = takeWhile isspace (rev ?u) @ ?v" by simp
  then have "last (rev ?u) = last ?v" using v by (metis last_appendR)
  then have "hd ?u = last ?v" using u by (simp add: last_rev)
  moreover have "hd (strip t) = last ?v" using v by (simp add: strip_def hd_rev)
  moreover have "\<not> isspace (hd ?u)" using u by (rule hd_dropWhile)
  ultimately have "\<not> isspace (hd (strip t))" by simp
  with l show ?thesis by (simp add: trimmed_def)
qed

lemma strip_id: "trimmed t \<Longrightarrow> strip t = t"
proof (cases "t = []")
  case True
  then show ?thesis by (simp add: strip_def)
next
  case False
  assume "trimmed t"
  with False have h: "\<not> isspace (hd t)" and l: "\<not> isspace (last t)" by (auto simp: trimmed_def)
  from False h have 1: "dropWhile isspace t = t" by (cases t) auto
  from False l have "\<not> isspace (hd (rev t))" by (simp add: hd_rev)
  with False have 2: "dropWhile isspace (rev t) = rev t" by (cases "rev t") auto
  from 1 2 show ?thesis by (simp add: strip_def)
qed

lemma strip_clean: "ws_clean t \<Longrightarrow> ws_clean (strip t)"
  using strip_set [of t] by (auto simp: ws_clean_def intro: successively_strip)

text \<open>The shape of every result, and the normalizer on that shape.\<close>

lemma normalize_shape:
  "ws_clean (normalize_text_for_dates raw) \<and> no_digit_letter (normalize_text_for_dates raw)
   \<and> no_letter_digit (normalize_text_for_dates raw) \<and> trimmed (normalize_text_for_dates raw)"
proof (cases "raw = []")
  case True
  then show ?thesis
    by (simp add: normalize_text_for_dates_def ws_clean_def no_digit_letter_def no_letter_digit_def trimmed_def)
next
  case False
  define t where "t = sub_letter_digit (sub_digit_letter (sub_ws
     (replace_char (CHR 0x09) CHR '' '' (replace_char (CHR 0xA0) CHR '' '' raw))))"
  have n: "normalize_text_for_dates raw = strip t"
    using False by (simp add: normalize_text_for_dates_def t_def)
  have w: "ws_clean t"
    unfolding t_def by (intro sub_letter_digit_clean sub_digit_letter_clean sub_ws_clean)
  have d: "no_digit_letter t"
    unfolding t_def by (intro sub_letter_digit_keeps sub_digit_letter_done)
  have l: "no_letter_digit t"
    unfolding t_def by (rule sub_letter_digit_done)
  from w have "ws_clean (strip t)" by (rule strip_clean)
  moreover from d have "no_digit_letter (strip t)"
    unfolding no_digit_letter_def by (rule successively_strip)
  moreover from l have "no_letter_digit (strip t)"
    unfolding no_letter_digit_def by (rule successively_strip)
  ultimately show ?thesis using strip_trimmed [of t] n by simp
qed

lemma normalize_on_shape:
  assumes "ws_clean t" "no_digit_letter t" "no_letter_digit t" "trimmed t"
  shows "normalize_text_for_dates t = t"
proof (cases "t = []")
  case True
  then show ?thesis by (simp add: normalize_text_for_dates_def)
next
  case False
  from assms(1) have "CHR 0xA0 \<notin> set t" "CHR 0x09 \<notin> set t"
    using class_facts(2,3,4,5) by (auto simp: ws_clean_def)
  then have r: "replace_char (CHR 0x09) CHR '' '' (replace_char (CHR 0xA0) CHR '' '' t) = t"
    by (simp add: replace_char_absent)
  show ?thesis
    using False assms
    by (simp add: normalize_text_for_dates_def r sub_ws_id sub_digit_letter_id sub_letter_digit_id strip_id)
qed

text \<open>
  Claim C7. The normalizer is a total function (it has no failing branch), it maps the
  empty text to the empty text, and it is idempotent.
\<close>

theorem normalize_text_for_dates_idempotent:
  "normalize_text_for_dates (normalize_text_for_dates x) = normalize_text_for_dates x
   \<and> normalize_text_for_dates [] = []"
proof
  show "normalize_text_for_dates (normalize_text_for_dates x) = normalize_text_for_dates x"
    using normalize_shape [of x] by (intro normalize_on_shape) auto
  show "normalize_text_for_dates [] = []"
    by (simp add: normalize_text_for_dates_def)
qed

subsection \<open>The country lexicon\<close>

lemma map_of_dict_set: "map_of (dict_set m k v) = (map_of m)(k \<mapsto> v)"
  by (induction m k v rule: dict_set.induct) auto

lemma fst_dict_set: "fst ` set (dict_set m k v) = insert k (fst ` set m)"
  by (induction m k v rule: dict_set.induct) auto

lemma map_of_foldl_dict_set:
  "map_of (foldl (\<lambda>m (k, v). dict_set m k v) m kvs) k =
     (case map_of (rev kvs) k of Some v \<Rightarrow> Some v | None \<Rightarrow> map_of m k)"
proof (induction kvs arbitrary: m)
  case Nil
  then show ?case by simp
next
  case (Cons kv kvs)
  obtain k' v' where kv: "kv = (k', v')" by (cases kv)
  show ?case
    using Cons.IH [of "dict_set m k' v'"]
    by (auto simp: kv map_of_dict_set map_of_append split: option.splits)
qed

lemma foldl_lower_keys:
  "foldl (\<lambda>m (k, v). dict_set m (lower k) v) m kvs =
     foldl (\<lambda>m (k, v). dict_set m k v) m (map (\<lambda>(k, v). (lower k, v)) kvs)"
  by (induction kvs arbitrary: m) auto

lemma ALIASES_lower: "map (\<lambda>(k, v). (lower k, v)) ALIASES = ALIASES"
  by code_simp

lemma ALIASES_south_korea: "map_of (rev ALIASES) ''south korea'' = Some ''Korea, Republic of''"
  by code_simp

lemma name_map_south_korea:
  "build_country_matchers countries = (name_map, keys_sorted) \<Longrightarrow>
     map_of name_map ''south korea'' = Some ''Korea, Republic of''"
  by (auto simp: build_country_matchers_def Let_def foldl_lower_keys ALIASES_lower
        map_of_foldl_dict_set ALIASES_south_korea)

lemma keys_sorted_set:
  "build_country_matchers countries = (name_map, keys_sorted) \<Longrightarrow>
     set keys_sorted = fst ` set name_map"
proof -
  assume "build_country_matchers countries = (name_map, keys_sorted)"
  then have "keys_sorted = sort_key (\<lambda>k. - int (length k)) (map fst name_map)"
    by (auto simp: build_country_matchers_def Let_def)
  then show ?thesis by simp
qed

lemma keys_sorted_desc:
  "build_country_matchers countries = (name_map, keys_sorted) \<Longrightarrow>
     sorted (map (\<lambda>k. - int (length k)) keys_sorted)"
  by (auto simp: build_country_matchers_def Let_def)

lemma first_hit_longest:
  assumes srt: "sorted (map (\<lambda>k. - int (length k)) keys)"
    and hit: "first_hit keys t = Some k"
    and k': "k' \<in> set keys" "contains t ('' '' @ k' @ '' '')"
  shows "length k' \<le> length k"
proof -
  let ?P = "\<lambda>k. contains t ('' '' @ k @ '' '')"
  from hit obtain i where i: "i < length keys" "?P (keys ! i)" "k = keys ! i" "\<forall>j<i. \<not> ?P (keys ! j)"
    unfolding first_hit_def find_Some_iff by blast
  from k'(1) obtain j where j: "j < length keys" "keys ! j = k'" by (auto simp: in_set_conv_nth)
  with k'(2) i(4) have ij: "i \<le> j" by (meson not_le_imp_less)
  from srt ij j(1) have "map (\<lambda>k. - int (length k)) keys ! i \<le> map (\<lambda>k. - int (length k)) keys ! j"
    by (intro sorted_nth_mono) auto
  with i(1,3) j show ?thesis by simp
qed

lemma first_hit_exists:
  "k \<in> set keys \<Longrightarrow> contains t ('' '' @ k @ '' '') \<Longrightarrow>
     \<exists>k0. first_hit keys t = Some k0 \<and> k0 \<in> set keys \<and> contains t ('' '' @ k0 @ '' '')"
proof -
  assume a: "k \<in> set keys" "contains t ('' '' @ k @ '' '')"
  let ?P = "\<lambda>k. contains t ('' '' @ k @ '' '')"
  from a have "find ?P keys \<noteq> None" unfolding find_None_iff by blast
  then obtain k0 where f: "find ?P keys = Some k0" by blast
  then have "?P k0 \<and> k0 \<in> set keys"
    unfolding find_Some_iff by (metis nth_mem)
  with f show ?thesis by (simp add: first_hit_def)
qed

lemma padded_text_Nil: "\<not> contains (padded_text []) '' south korea ''"
  by code_simp

text \<open>
  Claim C6. For every registry, the lexicon built from it maps \<open>south korea\<close> to
  \<open>Korea, Republic of\<close> (the alias table overrides the registry) and its keys are
  sorted by length, longest first. The key at which the search returns is never
  shorter than another key that occurs space-delimited in the padded text: a shorter
  alias cannot shadow a longer one that is present. So whenever \<open>south korea\<close> occurs
  space-delimited and no other key of the same or a greater length does, the country
  inferred is \<open>Korea, Republic of\<close>, whatever shorter keys (such as \<open>korea\<close>) occur.
\<close>

theorem south_korea_longest_match_first:
  assumes build: "build_country_matchers countries = (name_map, keys_sorted)"
  shows "map_of name_map ''south korea'' = Some ''Korea, Republic of''
    \<and> set keys_sorted = fst ` set name_map
    \<and> sorted (map (\<lambda>k. - int (length k)) keys_sorted)
    \<and> (\<forall>raw k k'. first_hit keys_sorted (padded_text raw) = Some k \<and> k' \<in> set keys_sorted
          \<and> contains (padded_text raw) ('' '' @ k' @ '' '')
        \<longrightarrow> length k' \<le> length k)
    \<and> (\<forall>raw. contains (padded_text raw) '' south korea ''
          \<and> (\<forall>k\<in>set keys_sorted. contains (padded_text raw) ('' '' @ k @ '' '')
                \<and> length ''south korea'' \<le> length k \<longrightarrow> k = ''south korea'')
        \<longrightarrow> infer_country raw name_map keys_sorted = Inr ''Korea, Republic of'')"
proof (intro conjI allI impI)
  show sk: "map_of name_map ''south korea'' = Some ''Korea, Republic of''"
    using build by (rule name_map_south_korea)
  show ks: "set keys_sorted = fst ` set name_map" using build by (rule keys_sorted_set)
  show srt: "sorted (map (\<lambda>k. - int (length k)) keys_sorted)" using build by (rule keys_sorted_desc)
  {
    fix raw k k'
    assume "first_hit keys_sorted (padded_text raw) = Some k \<and> k' \<in> set keys_sorted
          \<and> contains (padded_text raw) ('' '' @ k' @ '' '')"
    then show "length k' \<le> length k" using first_hit_longest [OF srt] by blast
  }
  {
    fix raw
    assume a: "contains (padded_text raw) '' south korea ''
          \<and> (\<forall>k\<in>set keys_sorted. contains (padded_text raw) ('' '' @ k @ '' '')
                \<and> length ''south korea'' \<le> length k \<longrightarrow> k = ''south korea'')"
    then have c: "contains (padded_text raw) ('' '' @ ''south korea'' @ '' '')" by simp
    from a have ne: "raw \<noteq> []" using padded_text_Nil by auto
    from sk have "(''south korea'', ''Korea, Republic of'') \<in> set name_map" by (rule map_of_SomeD)
    then have mem: "''south korea'' \<in> set keys_sorted" unfolding ks by force
    from first_hit_exists [OF mem c] obtain k0 where k0:
      "first_hit keys_sorted (padded_text raw) = Some k0" "k0 \<in> set keys_sorted"
      "contains (padded_text raw) ('' '' @ k0 @ '' '')" by blast
    from first_hit_longest [OF srt k0(1) mem c] have "length ''south korea'' \<le> length k0" .
    with a k0(2,3) have "k0 = ''south korea''" by blast
    with k0(1) sk ne show "infer_country raw name_map keys_sorted = Inr ''Korea, Republic of''"
      by (simp add: infer_country_def)
  }
qed

lemma ex_korea_occurs:
  "contains (padded_text ''Seoul, South Korea'') '' south korea ''"
  "contains (padded_text ''Seoul, South Korea'') '' korea ''"
  "''korea'' \<in> set (snd (build_country_matchers example_registry))"
  by code_simp+

lemma ex_korea_no_longer_key:
  "\<forall>k\<in>set (snd (build_country_matchers example_registry)).
      contains (padded_text ''Seoul, South Korea'') ('' '' @ k @ '' '')
      \<and> length ''south korea'' \<le> length k \<longrightarrow> k = ''south korea''"
  by code_simp

theorem south_korea_longest_match_first_witness:
  "infer_country ''Seoul, South Korea'' (fst (build_country_matchers example_registry))
       (snd (build_country_matchers example_registry)) = Inr ''Korea, Republic of''
   \<and> ''korea'' \<in> set (snd (build_country_matchers example_registry))
   \<and> contains (padded_text ''Seoul, South Korea'') '' korea ''"
proof -
  have "infer_country ''Seoul, South Korea'' (fst (build_country_matchers example_registry))
       (snd (build_country_matchers example_registry)) = Inr ''Korea, Republic of''"
    using south_korea_longest_match_first [OF prod.collapse [symmetric], of example_registry]
          ex_korea_occurs(1) ex_korea_no_longer_key
    by blast
  with ex_korea_occurs show ?thesis by simp
qed

subsection \<open>The identifier pattern\<close>

lemma first_down_top: "lo \<le> n \<Longrightarrow> f n = Some r \<Longrightarrow> first_down f lo n = Some r"
  by (cases n) auto

lemma first_down_complete:
  "lo \<le> k \<Longrightarrow> k \<le> n \<Longrightarrow> f k = Some r \<Longrightarrow>
     \<exists>k' r'. k \<le> k' \<and> k' \<le> n \<and> f k' = Some r' \<and> first_down f lo n = Some r'"
proof (induction n)
  case 0
  then show ?case by auto
next
  case (Suc n)
  show ?case
  proof (cases "f (Suc n)")
    case (Some a)
    with Suc.prems have "first_down f lo (Suc n) = Some a" by (auto intro: first_down_top)
    with Some Suc.prems show ?thesis by (intro exI [of _ "Suc n"]) auto
  next
    case None
    with Suc.prems have kn: "k \<le> n" by (cases "k = Suc n") auto
    from Suc.IH [OF Suc.prems(1) kn Suc.prems(3)] obtain k' r' where
      "k \<le> k'" "k' \<le> n" "f k' = Some r'" "first_down f lo n = Some r'" by blast
    moreover have "first_down f lo (Suc n) = first_down f lo n"
      using None Suc.prems(1) kn by auto
    ultimately show ?thesis by (intro exI [of _ k']) auto
  qed
qed

lemma case_pair_None:
  "(case x of None \<Rightarrow> None | Some (j, caps) \<Rightarrow> Some (g j caps)) = None \<longleftrightarrow> x = None"
  by (cases x) auto

lemma case_pair_Some:
  "(case x of None \<Rightarrow> None | Some (j, caps) \<Rightarrow> Some (g j caps)) = Some y
     \<longleftrightarrow> (\<exists>j caps. x = Some (j, caps) \<and> y = g j caps)"
  by (cases x) auto

lemma first_up_None:
  "first_up f i n = None \<Longrightarrow> \<forall>k. i \<le> k \<and> k < i + n \<longrightarrow> f k = None"
proof (induction n arbitrary: i)
  case 0
  then show ?case by auto
next
  case (Suc n)
  from Suc.prems have fi: "f i = None" and r: "first_up f (Suc i) n = None"
    by (auto split: option.splits)
  from Suc.IH [OF r] have ih: "\<forall>k. Suc i \<le> k \<and> k < Suc i + n \<longrightarrow> f k = None" .
  show ?case
  proof (intro allI impI)
    fix k assume k: "i \<le> k \<and> k < i + Suc n"
    show "f k = None"
    proof (cases "k = i")
      case True
      with fi show ?thesis by simp
    next
      case False
      with k have "Suc i \<le> k \<and> k < Suc i + n" by arith
      with ih show ?thesis by blast
    qed
  qed
qed

lemma re_search_leftmost:
  "re_search items s = Some (i, j, caps) \<Longrightarrow> \<forall>i'<i. matchI items s i' = None"
proof -
  let ?f = "\<lambda>i. case matchI items s i of None \<Rightarrow> None | Some (j, caps) \<Rightarrow> Some (i, j, caps)"
  assume "re_search items s = Some (i, j, caps)"
  then have "first_up ?f 0 (Suc (length s)) = Some (i, j, caps)" by (simp add: re_search_def)
  from first_up_Some [OF this] obtain k where k: "?f k = Some (i, j, caps)"
    "\<forall>k'. 0 \<le> k' \<and> k' < k \<longrightarrow> ?f k' = None"
    by blast
  from k(1) have "k = i" unfolding case_pair_Some by blast
  with k(2) show ?thesis unfolding case_pair_None by blast
qed

lemma re_search_None:
  "re_search items s = None \<Longrightarrow> \<forall>i\<le>length s. matchI items s i = None"
proof -
  let ?f = "\<lambda>i. case matchI items s i of None \<Rightarrow> None | Some (j, caps) \<Rightarrow> Some (i, j, caps)"
  assume "re_search items s = None"
  then have "first_up ?f 0 (Suc (length s)) = None" by (simp add: re_search_def)
  from first_up_None [OF this] have "\<forall>k. 0 \<le> k \<and> k < 0 + Suc (length s) \<longrightarrow> ?f k = None" .
  then have "\<forall>k. k < Suc (length s) \<longrightarrow> matchI items s k = None"
    unfolding case_pair_None by simp
  then show ?thesis by (simp add: less_Suc_eq_le)
qed

lemma matchI_Rep_D:
  assumes "matchI (Rep cls lo hi cap # r) s i = Some (j, caps)"
  shows "\<exists>k caps'. lo \<le> k \<and> k \<le> greedy_count cls hi (drop i s)
            \<and> matchI r s (i + k) = Some (j, caps')
            \<and> caps = (if cap then take k (drop i s) # caps' else caps')
            \<and> (\<forall>k'. k < k' \<and> k' \<le> greedy_count cls hi (drop i s) \<longrightarrow> matchI r s (i + k') = None)"
proof -
  let ?f = "\<lambda>k. case matchI r s (i + k) of None \<Rightarrow> None
              | Some (j, caps) \<Rightarrow> Some (j, if cap then take k (drop i s) # caps else caps)"
  from assms have "first_down ?f lo (greedy_count cls hi (drop i s)) = Some (j, caps)" by simp
  from first_down_Some [OF this] obtain k where k: "lo \<le> k" "k \<le> greedy_count cls hi (drop i s)"
    "?f k = Some (j, caps)" "\<forall>k'. k < k' \<and> k' \<le> greedy_count cls hi (drop i s) \<longrightarrow> ?f k' = None"
    by blast
  from k(3) obtain caps' where "matchI r s (i + k) = Some (j, caps')"
    "caps = (if cap then take k (drop i s) # caps' else caps')"
    unfolding case_pair_Some by blast
  moreover from k(4) have "\<forall>k'. k < k' \<and> k' \<le> greedy_count cls hi (drop i s) \<longrightarrow> matchI r s (i + k') = None"
    unfolding case_pair_None .
  ultimately show ?thesis using k(1,2) by blast
qed

lemma greedy_count_D:
  assumes "k \<le> greedy_count cls hi xs"
  shows "k \<le> length xs \<and> (\<forall>c\<in>set (take k xs). cls c) \<and> (\<forall>h. hi = Some h \<longrightarrow> k \<le> h)"
proof -
  from assms have kt: "k \<le> length (takeWhile cls xs)"
    by (auto simp: greedy_count_def Let_def split: option.splits)
  have "length (takeWhile cls xs) \<le> length xs" by (rule length_takeWhile_le)
  with kt have 1: "k \<le> length xs" by simp
  have "take k xs = take k (takeWhile cls xs)"
    using kt by (metis append_eq_conv_conj takeWhile_dropWhile_id take_append min.absorb1
                  take_all_iff append.right_neutral diff_is_0_eq take_0 length_take)
  then have 2: "\<forall>c\<in>set (take k xs). cls c"
    by (metis in_set_takeD set_takeWhileD)
  from assms have 3: "\<forall>h. hi = Some h \<longrightarrow> k \<le> h"
    by (auto simp: greedy_count_def Let_def)
  from 1 2 3 show ?thesis by blast
qed

lemma matchI_Lit_D:
  assumes "matchI (Lit c # r) s i = Some (j, caps)"
  shows "i < length s \<and> s ! i = c \<and> matchI r s (Suc i) = Some (j, caps)"
proof -
  from assms have m: "matchI (Rep (\<lambda>x. x = c) 1 (Some 1) False # r) s i = Some (j, caps)"
    by (simp add: Lit_def)
  from matchI_Rep_D [OF m] obtain k caps' where k: "1 \<le> k"
    "k \<le> greedy_count (\<lambda>x. x = c) (Some 1) (drop i s)" "matchI r s (i + k) = Some (j, caps')"
    "caps = (if False then take k (drop i s) # caps' else caps')"
    by blast
  from greedy_count_D [OF k(2)] have g: "k \<le> length (drop i s)"
    "\<forall>x\<in>set (take k (drop i s)). x = c" "k \<le> 1" by auto
  with k(1) have k1: "k = 1" by simp
  with g(1) have il: "i < length s" by simp
  then have "take 1 (drop i s) = [s ! i]"
    by (simp add: take_Suc_conv_app_nth)
  with g(2) k1 have si: "s ! i = c" by simp
  from k(3,4) k1 il si show ?thesis by simp
qed

lemma word_is_tail: "is_word c \<Longrightarrow> doi_tail_char c"
  by (auto simp: is_word_def doi_tail_char_def isspace_def Let_def)

text \<open>The last two items of the pattern, a greedy run of a class that holds every
  word character and then \<open>\b\<close>: the match ends behind a word character, at the last
  word boundary inside (or at the end of) the run.\<close>

lemma matchI_run_boundary:
  assumes m: "matchI [Rep cls lo None cap, WB] s p = Some (j, caps)"
    and lo: "1 \<le> lo"
    and cls: "\<And>c. is_word c \<Longrightarrow> cls c"
  shows "\<exists>k. j = p + k \<and> 1 \<le> k \<and> k \<le> length (drop p s) \<and> (\<forall>c\<in>set (take k (drop p s)). cls c)
            \<and> at_boundary s j \<and> word_at s (j - 1)"
proof -
  let ?n = "greedy_count cls None (drop p s)"
  from matchI_Rep_D [OF m] obtain k caps' where k: "lo \<le> k" "k \<le> ?n"
    "matchI [WB] s (p + k) = Some (j, caps')"
    "\<forall>k'. k < k' \<and> k' \<le> ?n \<longrightarrow> matchI [WB] s (p + k') = None"
    by blast
  from k(3) have b: "at_boundary s (p + k)" and j: "j = p + k" by (auto split: if_splits)
  from k(4) have nb: "\<forall>k'. k < k' \<and> k' \<le> ?n \<longrightarrow> \<not> at_boundary s (p + k')"
    by (auto split: if_splits)
  from greedy_count_D [OF k(2)] have g: "k \<le> length (drop p s)" "\<forall>c\<in>set (take k (drop p s)). cls c"
    by auto
  have n: "?n = length (takeWhile cls (drop p s))" by (simp add: greedy_count_def)
  have w: "word_at s (p + k - 1)"
  proof (rule ccontr)
    assume nw: "\<not> word_at s (p + k - 1)"
    with b have wk: "word_at s (p + k)" by (auto simp: at_boundary_def)
    have run: "k \<le> m \<Longrightarrow> m \<le> ?n \<Longrightarrow> word_at s (p + m)" for m
    proof (induction m)
      case 0
      with wk show ?case by simp
    next
      case (Suc m)
      show ?case
      proof (cases "k = Suc m")
        case True
        with wk show ?thesis by simp
      next
        case False
        with Suc.prems have km: "k \<le> m" "m \<le> ?n" by auto
        then have wm: "word_at s (p + m)" by (rule Suc.IH)
        from False Suc.prems have "k < Suc m \<and> Suc m \<le> ?n" by simp
        with nb have "\<not> at_boundary s (p + Suc m)" by blast
        with wm show ?thesis by (auto simp: at_boundary_def)
      qed
    qed
    from run [of ?n] k(2) have wn: "word_at s (p + ?n)" by simp
    then have ln: "p + ?n < length s" and iw: "is_word (s ! (p + ?n))" by (auto simp: word_at_def)
    from ln have "length (takeWhile cls (drop p s)) < length (drop p s)" by (simp add: n)
    then have "\<not> cls (drop p s ! length (takeWhile cls (drop p s)))" by (rule nth_length_takeWhile)
    with ln have "\<not> cls (s ! (p + ?n))" by (simp add: n)
    with iw cls show False by blast
  qed
  from k(1) lo have "1 \<le> k" by simp
  with j b w g show ?thesis by auto
qed

lemma take_of_drop_prefix: "drop i s = w @ rest \<Longrightarrow> take (length w) (drop i s) = w"
  by simp

lemma drop_step: "i < length s \<Longrightarrow> s ! i = c \<Longrightarrow> drop i s = c # drop (Suc i) s"
  using Cons_nth_drop_Suc [of i s] by simp

lemma drop_take_step: "k \<le> length (drop q s) \<Longrightarrow> drop q s = take k (drop q s) @ drop (q + k) s"
  by (metis append_take_drop_id drop_drop add.commute)

text \<open>Soundness of the matcher for the identifier pattern.\<close>

lemma matchI_DOI_sound:
  assumes "matchI DOI_RE s i = Some (j, caps)"
  shows "doi_match s i j \<and> i < j \<and> word_at s (j - 1)"
proof -
  let ?tailp = "[Rep doi_tail_char 1 None False, WB]"
  from assms have b: "at_boundary s i"
    and m1: "matchI (Lit CHR ''1'' # Lit CHR ''0'' # Lit CHR ''.'' # Rep isdigit 4 (Some 9) False
               # Lit CHR ''/'' # ?tailp) s i = Some (j, caps)"
    by (auto simp: DOI_RE_def split: if_splits)
  from matchI_Lit_D [OF m1] have c1: "i < length s" "s ! i = CHR ''1''"
    and m2: "matchI (Lit CHR ''0'' # Lit CHR ''.'' # Rep isdigit 4 (Some 9) False
               # Lit CHR ''/'' # ?tailp) s (Suc i) = Some (j, caps)" by auto
  from matchI_Lit_D [OF m2] have c2: "Suc i < length s" "s ! Suc i = CHR ''0''"
    and m3: "matchI (Lit CHR ''.'' # Rep isdigit 4 (Some 9) False
               # Lit CHR ''/'' # ?tailp) s (Suc (Suc i)) = Some (j, caps)" by auto
  from matchI_Lit_D [OF m3] have c3: "Suc (Suc i) < length s" "s ! Suc (Suc i) = CHR ''.''"
    and m4: "matchI (Rep isdigit 4 (Some 9) False # Lit CHR ''/'' # ?tailp) s (Suc (Suc (Suc i)))
               = Some (j, caps)" by auto
  let ?q = "Suc (Suc (Suc i))"
  from matchI_Rep_D [OF m4] obtain k1 caps1 where k1: "4 \<le> k1"
    "k1 \<le> greedy_count isdigit (Some 9) (drop ?q s)"
    "matchI (Lit CHR ''/'' # ?tailp) s (?q + k1) = Some (j, caps1)" by blast
  from greedy_count_D [OF k1(2)] have g1: "k1 \<le> length (drop ?q s)"
    "\<forall>c\<in>set (take k1 (drop ?q s)). isdigit c" "k1 \<le> 9" by auto
  from matchI_Lit_D [OF k1(3)] have c4: "?q + k1 < length s" "s ! (?q + k1) = CHR ''/''"
    and m5: "matchI ?tailp s (Suc (?q + k1)) = Some (j, caps1)" by auto
  let ?p = "Suc (?q + k1)"
  from matchI_run_boundary [OF m5 _ word_is_tail] obtain k2 where k2: "j = ?p + k2" "1 \<le> k2"
    "k2 \<le> length (drop ?p s)" "\<forall>c\<in>set (take k2 (drop ?p s)). doi_tail_char c"
    "at_boundary s j" "word_at s (j - 1)" by auto
  define ds where "ds = take k1 (drop ?q s)"
  define tl where "tl = take k2 (drop ?p s)"
  define A where "A = drop ?q s"
  define X where "X = drop (?q + k1) s"
  define Y where "Y = drop ?p s"
  define R where "R = drop (?p + k2) s"
  have d0: "drop i s = CHR ''1'' # drop (Suc i) s" using c1 by (rule drop_step)
  have d1: "drop (Suc i) s = CHR ''0'' # drop (Suc (Suc i)) s" using c2 by (rule drop_step)
  have d2: "drop (Suc (Suc i)) s = CHR ''.'' # A" unfolding A_def using c3 by (rule drop_step)
  have d3: "A = ds @ X" unfolding A_def ds_def X_def using g1(1) by (rule drop_take_step)
  have d4: "X = CHR ''/'' # Y" unfolding X_def Y_def using c4 by (rule drop_step)
  have d5: "Y = tl @ R" unfolding Y_def tl_def R_def using k2(3) by (rule drop_take_step)
  have whole: "drop i s = (''10.'' @ ds @ ''/'' @ tl) @ R"
    by (simp only: d0 d1 d2 d3 d4 d5 append_Cons append_Nil append_assoc)
  have lds: "length ds = k1" using g1(1) by (simp add: ds_def)
  have ltl: "length tl = k2" using k2(3) by (simp add: tl_def)
  have len: "length (''10.'' @ ds @ ''/'' @ tl) = j - i"
    using k2(1) lds ltl by simp
  from take_of_drop_prefix [OF whole] len
  have w: "take (j - i) (drop i s) = ''10.'' @ ds @ ''/'' @ tl" by simp
  have "doi_grammar (take (j - i) (drop i s))"
    unfolding doi_grammar_def w
  proof (intro exI conjI)
    show "''10.'' @ ds @ ''/'' @ tl = ''10.'' @ ds @ ''/'' @ tl" by (rule refl)
    show "4 \<le> length ds" "length ds \<le> 9" using k1(1) g1(3) lds by simp_all
    show "\<forall>c\<in>set ds. isdigit c" using g1(2) by (simp add: ds_def)
    show "tl \<noteq> []" using k2(2) ltl by auto
    show "\<forall>c\<in>set tl. doi_tail_char c" using k2(4) by (simp add: tl_def)
  qed
  moreover have "j \<le> length s" using k2(1,3) c4(1) by simp
  moreover have "i < j" using k2(1) by simp
  ultimately show ?thesis using b k2(5,6) by (simp add: doi_match_def)
qed

text \<open>Completeness of the matcher for the identifier pattern.\<close>

lemma drop_after_Cons: "drop i s = c # rest \<Longrightarrow> drop (Suc i) s = rest"
  by (metis drop_Suc list.sel(3) tl_drop)

lemma drop_after_prefix: "drop i s = xs @ rest \<Longrightarrow> drop (i + length xs) s = rest"
  by (metis add.commute append_eq_conv_conj drop_drop)

lemma matchI_Lit_step: "drop i s = c # rest \<Longrightarrow> matchI (Lit c # r) s i = matchI r s (Suc i)"
  by (cases "matchI r s (Suc i)") (auto simp: Lit_def greedy_count_def)

lemma matchI_digits_step:
  assumes d: "drop q s = ds @ c # rest" and c: "\<not> isdigit c" and ds: "\<forall>d\<in>set ds. isdigit d"
    and len: "4 \<le> length ds" "length ds \<le> 9"
    and m: "matchI r s (q + length ds) = Some (j, caps)"
  shows "matchI (Rep isdigit 4 (Some 9) False # r) s q = Some (j, caps)"
proof -
  have "takeWhile isdigit (ds @ c # rest) = ds" using c ds by (simp add: takeWhile_tail)
  then have g: "greedy_count isdigit (Some 9) (drop q s) = length ds"
    using len(2) by (simp add: greedy_count_def d)
  let ?f = "\<lambda>k. case matchI r s (q + k) of None \<Rightarrow> None
              | Some (j, caps) \<Rightarrow> Some (j, if False then take k (drop q s) # caps else caps)"
  have "?f (length ds) = Some (j, caps)" using m by simp
  with len(1) have "first_down ?f 4 (length ds) = Some (j, caps)" by (rule first_down_top)
  then show ?thesis by (simp add: g)
qed

lemma matchI_tail_step:
  assumes d: "drop p s = tail @ rest" and ne: "tail \<noteq> []" and tail: "\<forall>c\<in>set tail. doi_tail_char c"
    and b: "at_boundary s (p + length tail)"
  shows "\<exists>j. p + length tail \<le> j \<and> matchI [Rep doi_tail_char 1 None False, WB] s p = Some (j, [])"
proof -
  let ?n = "greedy_count doi_tail_char None (drop p s)"
  let ?f = "\<lambda>k. case matchI [WB] s (p + k) of None \<Rightarrow> None
              | Some (j, caps) \<Rightarrow> Some (j, if False then take k (drop p s) # caps else caps)"
  have "takeWhile doi_tail_char (tail @ rest) = tail @ takeWhile doi_tail_char rest"
    using tail by (simp add: takeWhile_append2)
  then have n: "length tail \<le> ?n" by (simp add: greedy_count_def d)
  from ne have lo: "1 \<le> length tail" by (cases tail) auto
  have fk: "?f (length tail) = Some (p + length tail, [])" using b by simp
  from first_down_complete [where f = ?f and k = "length tail", OF lo n fk] obtain k' r' where k': "length tail \<le> k'"
    "?f k' = Some r'" "first_down ?f 1 ?n = Some r'" by blast
  from k'(2) have "r' = (p + k', [])" by (auto split: if_splits)
  with k'(3) have "matchI [Rep doi_tail_char 1 None False, WB] s p = Some (p + k', [])" by simp
  with k'(1) show ?thesis by auto
qed

lemma slash_no_digit: "\<not> isdigit CHR ''/''"
  by (simp add: isdigit_def)

lemma matchI_DOI_complete:
  assumes "doi_match s i j"
  shows "\<exists>j' caps. j \<le> j' \<and> matchI DOI_RE s i = Some (j', caps)"
proof -
  from assms have ij: "i \<le> j" "j \<le> length s" and bi: "at_boundary s i" and bj: "at_boundary s j"
    and g: "doi_grammar (take (j - i) (drop i s))" by (auto simp: doi_match_def)
  from g obtain ds tail where w: "take (j - i) (drop i s) = ''10.'' @ ds @ ''/'' @ tail"
    and ds: "4 \<le> length ds" "length ds \<le> 9" "\<forall>c\<in>set ds. isdigit c"
    and tail: "tail \<noteq> []" "\<forall>c\<in>set tail. doi_tail_char c"
    unfolding doi_grammar_def by blast
  define R where "R = drop (j - i) (drop i s)"
  have "drop i s = take (j - i) (drop i s) @ R" by (simp only: R_def append_take_drop_id)
  then have d0: "drop i s = CHR ''1'' # CHR ''0'' # CHR ''.'' # ds @ CHR ''/'' # tail @ R"
    by (simp add: w)
  from ij have "length (take (j - i) (drop i s)) = j - i" by simp
  then have lw: "j - i = 4 + length ds + length tail" by (simp add: w)
  have d1: "drop (Suc i) s = CHR ''0'' # CHR ''.'' # ds @ CHR ''/'' # tail @ R"
    using d0 by (rule drop_after_Cons)
  have d2: "drop (Suc (Suc i)) s = CHR ''.'' # ds @ CHR ''/'' # tail @ R"
    using d1 by (rule drop_after_Cons)
  let ?q = "Suc (Suc (Suc i))"
  have d3: "drop ?q s = ds @ CHR ''/'' # tail @ R"
    using d2 by (rule drop_after_Cons)
  have d4: "drop (?q + length ds) s = CHR ''/'' # tail @ R"
    using d3 by (rule drop_after_prefix)
  let ?p = "Suc (?q + length ds)"
  have d5: "drop ?p s = tail @ R"
    using d4 by (rule drop_after_Cons)
  from ij lw have pj: "?p + length tail = j" by simp
  from matchI_tail_step [OF d5 tail] bj pj obtain j' where j': "j \<le> j'"
    "matchI [Rep doi_tail_char 1 None False, WB] s ?p = Some (j', [])" by auto
  define T where "T = [Rep doi_tail_char 1 None False, WB]"
  from j'(2) have m6: "matchI T s ?p = Some (j', [])" by (simp only: T_def)
  have "matchI (Lit CHR ''/'' # T) s (?q + length ds) = matchI T s ?p"
    using d4 by (rule matchI_Lit_step)
  with m6 have m5: "matchI (Lit CHR ''/'' # T) s (?q + length ds) = Some (j', [])" by simp
  have m4: "matchI (Rep isdigit 4 (Some 9) False # Lit CHR ''/'' # T) s ?q = Some (j', [])"
    using d3 slash_no_digit ds(3) ds(1) ds(2) m5 by (rule matchI_digits_step)
  define U where "U = Rep isdigit 4 (Some 9) False # Lit CHR ''/'' # T"
  have m3: "matchI (Lit CHR ''.'' # U) s (Suc (Suc i)) = Some (j', [])"
    using m4 by (simp only: matchI_Lit_step [OF d2] U_def)
  have m2: "matchI (Lit CHR ''0'' # Lit CHR ''.'' # U) s (Suc i) = Some (j', [])"
    using m3 by (simp only: matchI_Lit_step [OF d1])
  have m1: "matchI (Lit CHR ''1'' # Lit CHR ''0'' # Lit CHR ''.'' # U) s i = Some (j', [])"
    using m2 by (simp only: matchI_Lit_step [OF d0])
  define V where "V = Lit CHR ''1'' # Lit CHR ''0'' # Lit CHR ''.'' # U"
  have e: "DOI_RE = WB # V"
    by (simp add: DOI_RE_def V_def U_def T_def)
  have "matchI DOI_RE s i = matchI V s i"
    unfolding e using bi by simp
  also have "\<dots> = Some (j', [])" using m1 by (simp only: V_def)
  finally show ?thesis using j'(1) by blast
qed

lemma re_search_DOI_Some:
  assumes "re_search DOI_RE s = Some (i, j, caps)"
  shows "doi_match s i j \<and> i < j \<and> word_at s (j - 1)
     \<and> (\<forall>i' j'. doi_match s i' j' \<longrightarrow> i < i' \<or> (i' = i \<and> j' \<le> j))"
proof -
  from re_search_Some [OF assms] have m: "matchI DOI_RE s i = Some (j, caps)" by simp
  have "\<forall>i' j'. doi_match s i' j' \<longrightarrow> i < i' \<or> (i' = i \<and> j' \<le> j)"
  proof (intro allI impI)
    fix i' j' assume d: "doi_match s i' j'"
    from matchI_DOI_complete [OF d] obtain j'' caps'' where c: "j' \<le> j''"
      "matchI DOI_RE s i' = Some (j'', caps'')" by blast
    from re_search_leftmost [OF assms] c(2) have "\<not> i' < i" by auto
    moreover have "i' = i \<longrightarrow> j' \<le> j" using c m by auto
    ultimately show "i < i' \<or> (i' = i \<and> j' \<le> j)" by arith
  qed
  with matchI_DOI_sound [OF m] show ?thesis by blast
qed

lemma re_search_DOI_None:
  assumes "re_search DOI_RE s = None"
  shows "\<not> doi_match s i j"
proof
  assume d: "doi_match s i j"
  then have "i \<le> length s" by (simp add: doi_match_def)
  with re_search_None [OF assms] have "matchI DOI_RE s i = None" by blast
  with matchI_DOI_complete [OF d] show False by auto
qed

lemma word_not_closing: "is_word c \<Longrightarrow> c \<notin> set '').,;]''"
  by (auto simp: is_word_def)

lemma rstrip_chars_id: "w \<noteq> [] \<Longrightarrow> last w \<notin> set chars \<Longrightarrow> rstrip_chars chars w = w"
proof -
  assume w: "w \<noteq> []" and l: "last w \<notin> set chars"
  from w have "rev w \<noteq> []" by simp
  moreover from w l have "hd (rev w) \<notin> set chars" by (simp add: hd_rev)
  ultimately have "dropWhile (\<lambda>c. c \<in> set chars) (rev w) = rev w" by (cases "rev w") auto
  then show ?thesis by (simp add: rstrip_chars_def)
qed

lemma group0_last: "i < j \<Longrightarrow> j \<le> length s \<Longrightarrow> group0 s i j \<noteq> [] \<and> last (group0 s i j) = s ! (j - 1)"
proof -
  assume ij: "i < j" "j \<le> length s"
  then have n: "j - i \<le> length (drop i s)" "j - i \<noteq> 0" by auto
  then have ne: "take (j - i) (drop i s) \<noteq> []" by auto
  from n have l: "length (take (j - i) (drop i s)) = j - i" by simp
  from ne have "last (take (j - i) (drop i s)) = take (j - i) (drop i s) ! (length (take (j - i) (drop i s)) - 1)"
    by (rule last_conv_nth)
  also have "\<dots> = take (j - i) (drop i s) ! (j - i - 1)" by (simp only: l)
  also have "\<dots> = drop i s ! (j - i - 1)" using n by simp
  also have "\<dots> = s ! (j - 1)" using ij by simp
  finally show ?thesis using ne by (simp add: group0_def)
qed

lemma rstrip_group0:
  assumes "re_search DOI_RE s = Some (i, j, caps)"
  shows "rstrip_chars '').,;]'' (group0 s i j) = group0 s i j"
proof -
  from re_search_DOI_Some [OF assms] have d: "doi_match s i j" "i < j" "word_at s (j - 1)" by auto
  from d(1) have jl: "j \<le> length s" by (simp add: doi_match_def)
  from group0_last [OF d(2) jl] d(3) have "group0 s i j \<noteq> []" "is_word (last (group0 s i j))"
    by (auto simp: word_at_def)
  then show ?thesis by (intro rstrip_chars_id word_not_closing)
qed

lemma re_search_DOI_Nil: "re_search DOI_RE [] = None"
  by code_simp

lemma parse_doi_eq: "parse_doi s = parse_doi_from_link s"
proof (cases "re_search DOI_RE s")
  case None
  then show ?thesis by (simp add: parse_doi_def parse_doi_from_link_def)
next
  case (Some r)
  obtain i j caps where r: "r = (i, j, caps)" by (cases r)
  from Some r have ne: "s \<noteq> []" using re_search_DOI_Nil by auto
  from Some r rstrip_group0 [of s i j caps] ne show ?thesis
    by (simp add: parse_doi_def parse_doi_from_link_def)
qed

text \<open>
  Claim C3, as amended. The three parsers of the repository return the same for every
  string. The result is empty exactly when no part of the string is in the identifier
  grammar between two word boundaries. Otherwise it is the leftmost such part, taken
  as long as possible, in lower case; that part ends in a word character, so that
  stripping closing punctuation from its end changes nothing.
\<close>

theorem doi_parsers_word_bounded_match:
  "parse_doi s = parse_doi_affil s \<and> parse_doi_affil s = parse_doi_from_link s
   \<and> ((\<forall>i j. \<not> doi_match s i j) \<longrightarrow> parse_doi s = [])
   \<and> ((\<exists>i j. doi_match s i j) \<longrightarrow>
        (\<exists>i j. doi_match s i j \<and> (\<forall>i' j'. doi_match s i' j' \<longrightarrow> i < i' \<or> (i' = i \<and> j' \<le> j))))
   \<and> (\<forall>i j. doi_match s i j \<and> (\<forall>i' j'. doi_match s i' j' \<longrightarrow> i < i' \<or> (i' = i \<and> j' \<le> j))
        \<longrightarrow> parse_doi s = lower (take (j - i) (drop i s)) \<and> parse_doi s \<noteq> []
           \<and> is_word (s ! (j - 1))
           \<and> rstrip_chars '').,;]'' (take (j - i) (drop i s)) = take (j - i) (drop i s))"
proof (intro conjI)
  show "parse_doi_affil s = parse_doi_from_link s"
    by (simp add: parse_doi_affil_def parse_doi_from_link_def)
  then show "parse_doi s = parse_doi_affil s" by (simp add: parse_doi_eq)
  show "(\<forall>i j. \<not> doi_match s i j) \<longrightarrow> parse_doi s = []"
  proof
    assume no: "\<forall>i j. \<not> doi_match s i j"
    have "re_search DOI_RE s = None"
    proof (cases "re_search DOI_RE s")
      case None
      then show ?thesis .
    next
      case (Some r)
      obtain i j caps where "r = (i, j, caps)" by (cases r)
      with Some re_search_DOI_Some [of s i j caps] no show ?thesis by blast
    qed
    then show "parse_doi s = []" by (simp add: parse_doi_def)
  qed
  show "(\<exists>i j. doi_match s i j) \<longrightarrow>
        (\<exists>i j. doi_match s i j \<and> (\<forall>i' j'. doi_match s i' j' \<longrightarrow> i < i' \<or> (i' = i \<and> j' \<le> j)))"
  proof
    assume "\<exists>i j. doi_match s i j"
    then obtain r where "re_search DOI_RE s = Some r" using re_search_DOI_None [of s] by (cases "re_search DOI_RE s") auto
    moreover obtain i j caps where "r = (i, j, caps)" by (cases r)
    ultimately have "re_search DOI_RE s = Some (i, j, caps)" by simp
    from re_search_DOI_Some [OF this]
    show "\<exists>i j. doi_match s i j \<and> (\<forall>i' j'. doi_match s i' j' \<longrightarrow> i < i' \<or> (i' = i \<and> j' \<le> j))"
      by blast
  qed
  show "\<forall>i j. doi_match s i j \<and> (\<forall>i' j'. doi_match s i' j' \<longrightarrow> i < i' \<or> (i' = i \<and> j' \<le> j))
        \<longrightarrow> parse_doi s = lower (take (j - i) (drop i s)) \<and> parse_doi s \<noteq> []
           \<and> is_word (s ! (j - 1))
           \<and> rstrip_chars '').,;]'' (take (j - i) (drop i s)) = take (j - i) (drop i s)"
  proof (intro allI impI)
    fix i j
    assume a: "doi_match s i j \<and> (\<forall>i' j'. doi_match s i' j' \<longrightarrow> i < i' \<or> (i' = i \<and> j' \<le> j))"
    then obtain r where "re_search DOI_RE s = Some r" using re_search_DOI_None [of s] by (cases "re_search DOI_RE s") auto
    moreover obtain i0 j0 caps where "r = (i0, j0, caps)" by (cases r)
    ultimately have rs: "re_search DOI_RE s = Some (i0, j0, caps)" by simp
    from re_search_DOI_Some [OF rs] have e: "doi_match s i0 j0" "i0 < j0" "word_at s (j0 - 1)"
      "\<forall>i' j'. doi_match s i' j' \<longrightarrow> i0 < i' \<or> (i' = i0 \<and> j' \<le> j0)" by auto
    from a e(1) have 1: "i < i0 \<or> (i0 = i \<and> j0 \<le> j)" by blast
    from a e(4) have 2: "i0 < i \<or> (i = i0 \<and> j \<le> j0)" by blast
    from 1 2 have eq: "i0 = i" "j0 = j" by auto
    from rstrip_group0 [OF rs] eq
    have rs0: "rstrip_chars '').,;]'' (take (j - i) (drop i s)) = take (j - i) (drop i s)"
      by (simp add: group0_def)
    from rs eq rs0 have p: "parse_doi s = lower (take (j - i) (drop i s))"
      by (simp add: parse_doi_def group0_def)
    from e(1,2) eq have "take (j - i) (drop i s) \<noteq> []" by (auto simp: doi_match_def)
    with p have "parse_doi s \<noteq> []" by (simp add: lower_def)
    moreover from e(3) eq have "is_word (s ! (j - 1))" by (simp add: word_at_def)
    ultimately show "parse_doi s = lower (take (j - i) (drop i s)) \<and> parse_doi s \<noteq> []
           \<and> is_word (s ! (j - 1))
           \<and> rstrip_chars '').,;]'' (take (j - i) (drop i s)) = take (j - i) (drop i s)"
      using p rs0 by blast
  qed
qed

lemma ex_doi_grammar:
  "doi_grammar ''10.1002/MRM.1''" "doi_grammar ''10.1234/abc''"
proof -
  have "''10.1002/MRM.1'' = ''10.'' @ ''1002'' @ ''/'' @ ''MRM.1''" by simp
  moreover have "\<forall>c\<in>set ''1002''. isdigit c" by code_simp
  moreover have "\<forall>c\<in>set ''MRM.1''. doi_tail_char c" by code_simp
  ultimately show "doi_grammar ''10.1002/MRM.1''"
    unfolding doi_grammar_def by (intro exI [of _ "''1002''"] exI [of _ "''MRM.1''"]) simp
  have "''10.1234/abc'' = ''10.'' @ ''1234'' @ ''/'' @ ''abc''" by simp
  moreover have "\<forall>c\<in>set ''1234''. isdigit c" by code_simp
  moreover have "\<forall>c\<in>set ''abc''. doi_tail_char c" by code_simp
  ultimately show "doi_grammar ''10.1234/abc''"
    unfolding doi_grammar_def by (intro exI [of _ "''1234''"] exI [of _ "''abc''"]) simp
qed

lemma ex_doi_match: "doi_match ''doi:10.1002/MRM.1).'' 4 17"
proof -
  have "at_boundary ''doi:10.1002/MRM.1).'' 4" "at_boundary ''doi:10.1002/MRM.1).'' 17"
    by code_simp+
  moreover have "take (17 - 4) (drop 4 ''doi:10.1002/MRM.1).'') = ''10.1002/MRM.1''" by code_simp
  ultimately show ?thesis using ex_doi_grammar(1) by (simp add: doi_match_def)
qed

lemma ex_doi_value: "parse_doi ''doi:10.1002/MRM.1).'' = ''10.1002/mrm.1''"
  by code_simp

theorem doi_parsers_word_bounded_match_witness:
  "doi_match ''doi:10.1002/MRM.1).'' 4 17
   \<and> parse_doi ''doi:10.1002/MRM.1).'' = ''10.1002/mrm.1''
   \<and> parse_doi_from_link ''doi:10.1002/MRM.1).'' = ''10.1002/mrm.1''
   \<and> (\<exists>i j. doi_match ''doi:10.1002/MRM.1).'' i j
         \<and> parse_doi ''doi:10.1002/MRM.1).'' = lower (take (j - i) (drop i ''doi:10.1002/MRM.1).'')))"
proof -
  let ?s = "''doi:10.1002/MRM.1).''"
  note t = doi_parsers_word_bounded_match [of ?s]
  from ex_doi_match have "\<exists>i j. doi_match ?s i j" by blast
  with t obtain i j where m: "doi_match ?s i j"
    "\<forall>i' j'. doi_match ?s i' j' \<longrightarrow> i < i' \<or> (i' = i \<and> j' \<le> j)" by blast
  with t have "parse_doi ?s = lower (take (j - i) (drop i ?s))" by blast
  with m(1) have "\<exists>i j. doi_match ?s i j \<and> parse_doi ?s = lower (take (j - i) (drop i ?s))" by blast
  moreover from t have "parse_doi_from_link ?s = parse_doi ?s" by simp
  ultimately show ?thesis using ex_doi_match ex_doi_value by simp
qed

text \<open>
  Claim C3 as stated fails: \<open>10.1234/abc\<close> is in the identifier grammar and is a part of
  the string \<open>x10.1234/abc\<close>, but no parser finds it, because \<open>\b\<close> does not hold between
  \<open>x\<close> and \<open>1\<close>.
\<close>

theorem doi_parsers_counterexample:
  "doi_grammar ''10.1234/abc''
   \<and> parse_doi (''x'' @ ''10.1234/abc'') = []
   \<and> parse_doi_affil (''x'' @ ''10.1234/abc'') = []
   \<and> parse_doi_from_link (''x'' @ ''10.1234/abc'') = []"
proof -
  have "parse_doi (''x'' @ ''10.1234/abc'') = []" "parse_doi_affil (''x'' @ ''10.1234/abc'') = []"
    "parse_doi_from_link (''x'' @ ''10.1234/abc'') = []" by code_simp+
  with ex_doi_grammar(2) show ?thesis by simp
qed

end
